theory Spec2Isabelle
  imports Main "HOL-Library.AList"
begin

section \<open>Python values used by \<^verbatim>\<open>user_list_matcher.py\<close>\<close>

text \<open>
  A Python \<^verbatim>\<open>str\<close> is a sequence of Unicode code points, so it is modelled as a list of
  natural numbers; \<open>py\<close> turns an ASCII literal into such a list.
\<close>

type_synonym pystr = "nat list"

definition py :: "string \<Rightarrow> pystr" where
  "py s = map of_char s"

text \<open>
  \<^verbatim>\<open>str.strip()\<close> without arguments removes leading and trailing white space, which for
  \<^verbatim>\<open>str\<close> is the set of code points for which \<^verbatim>\<open>str.isspace\<close> holds.
\<close>

definition isspace :: "nat \<Rightarrow> bool" where
  "isspace c \<longleftrightarrow>
     (0x09 \<le> c \<and> c \<le> 0x0D) \<or> (0x1C \<le> c \<and> c \<le> 0x20) \<or> c = 0x85 \<or> c = 0xA0 \<or>
     c = 0x1680 \<or> (0x2000 \<le> c \<and> c \<le> 0x200A) \<or> c = 0x2028 \<or> c = 0x2029 \<or>
     c = 0x202F \<or> c = 0x205F \<or> c = 0x3000"

definition strip :: "pystr \<Rightarrow> pystr" where
  "strip s = rev (dropWhile isspace (rev (dropWhile isspace s)))"

text \<open>\<^verbatim>\<open>str(n)\<close> for a non-negative integer: its decimal digits.\<close>

fun str_nat :: "nat \<Rightarrow> pystr" where
  "str_nat n = (if n < 10 then [48 + n] else str_nat (n div 10) @ [48 + n mod 10])"

declare str_nat.simps [simp del]

text \<open>
  A row is a \<^verbatim>\<open>dict\<close> from column name to string. Python dictionaries keep insertion order
  and an assignment to an existing key keeps the key's position, which is what
  \<^const>\<open>AList.update\<close> does on an association list. On a string, \<^verbatim>\<open>str(v)\<close> is the
  identity, so \<^verbatim>\<open>str(row.get(key, ""))\<close> is \<open>dict_get row key []\<close>.
\<close>

type_synonym row = "(pystr \<times> pystr) list"

definition dict_get :: "('k \<times> 'v) list \<Rightarrow> 'k \<Rightarrow> 'v \<Rightarrow> 'v" where
  "dict_get d k dflt = (case map_of d k of None \<Rightarrow> dflt | Some v \<Rightarrow> v)"

section \<open>The state of the window that \<^verbatim>\<open>_run\<close> reads\<close>

record mapping_row =
  full_var :: pystr
  masked_var :: pystr
  mode_var :: pystr
  active :: bool

record app =
  full_headers :: "pystr list"
  full_rows :: "row list"
  masked_headers :: "pystr list"
  masked_rows :: "row list"
  mapping_rows :: "mapping_row list"
  full_key_var :: pystr
  masked_key_var :: pystr

section \<open>Planning the output columns\<close>

text \<open>The combobox entry that stands for "append a new column", and the suffix of a renamed column.\<close>

definition NEW_COLUMN :: pystr where
  "NEW_COLUMN = [0xFF08, 0x65B0, 0x589E, 0x5217, 0xFF09]"

definition fill_suffix :: pystr where
  "fill_suffix = [0x5F, 0x8865, 0x5168]"

text \<open>The f-string \<^verbatim>\<open>f"{base}_..{suffix}"\<close>.\<close>

definition suffixed :: "pystr \<Rightarrow> nat \<Rightarrow> pystr" where
  "suffixed base suffix = base @ fill_suffix @ str_nat suffix"

text \<open>
  The loop \<^verbatim>\<open>while write_col in result_headers: write_col = f"..."; suffix += 1\<close>, with the
  loop variables \<open>write_col\<close> and \<open>suffix\<close> as arguments.
\<close>

function unique_name :: "pystr \<Rightarrow> pystr list \<Rightarrow> pystr \<Rightarrow> nat \<Rightarrow> pystr" where
  "unique_name base result_headers write_col suffix =
     (if write_col \<in> set result_headers
      then unique_name base result_headers (suffixed base suffix) (suffix + 1)
      else write_col)"
  by pat_completeness auto

text \<open>
  The loop ends because decimal numerals are injective: only finitely many candidate names
  occur among the headers.
\<close>

definition digits_val :: "pystr \<Rightarrow> nat" where
  "digits_val ds = foldl (\<lambda>a d. 10 * a + (d - 48)) 0 ds"

lemma digits_val_str_nat: "digits_val (str_nat n) = n"
proof (induction n rule: str_nat.induct)
  case (1 n)
  show ?case
  proof (cases "n < 10")
    case True
    then show ?thesis by (simp add: str_nat.simps [of n] digits_val_def)
  next
    case False
    with 1 have "digits_val (str_nat (n div 10)) = n div 10" by simp
    with False show ?thesis by (simp add: str_nat.simps [of n] digits_val_def)
  qed
qed

lemma str_nat_inj: "str_nat m = str_nat n \<Longrightarrow> m = n"
  by (metis digits_val_str_nat)

lemma suffixed_inj: "suffixed base m = suffixed base n \<Longrightarrow> m = n"
  by (simp add: suffixed_def str_nat_inj)

lemma finite_suffixes: "finite {n. suffixed base n \<in> set hs}"
proof -
  have "inj (suffixed base)" by (rule injI) (rule suffixed_inj)
  then have "finite (suffixed base -` set hs)" by (intro finite_vimageI) simp_all
  then show ?thesis by (simp add: vimage_def)
qed

definition pending :: "pystr \<Rightarrow> pystr list \<Rightarrow> nat \<Rightarrow> nat set" where
  "pending base hs s = {n. s \<le> n \<and> suffixed base n \<in> set hs}"

lemma finite_pending: "finite (pending base hs s)"
  using finite_suffixes [of base hs] by (simp add: pending_def)

lemma pending_Suc_in:
  "suffixed base s \<in> set hs \<Longrightarrow> pending base hs s = insert s (pending base hs (Suc s))"
  by (auto simp: pending_def Suc_le_eq le_less)

lemma pending_Suc_out:
  "suffixed base s \<notin> set hs \<Longrightarrow> pending base hs (Suc s) = pending base hs s"
  by (auto simp: pending_def Suc_le_eq le_less)

lemma card_pending_in:
  assumes "suffixed base s \<in> set hs"
  shows "card (pending base hs s) = Suc (card (pending base hs (Suc s)))"
proof -
  have "s \<notin> pending base hs (Suc s)" by (simp add: pending_def)
  then show ?thesis
    using finite_pending [of base hs "Suc s"] by (simp add: pending_Suc_in [OF assms])
qed

termination unique_name
proof (relation "measure (\<lambda>(base, hs, w, s). 2 * card (pending base hs s) + (if w \<in> set hs then 1 else 0))")
  show "wf (measure (\<lambda>(base, hs, w, s). 2 * card (pending base hs s) + (if w \<in> set hs then 1 else 0)))"
    by simp
next
  fix base :: pystr and result_headers :: "pystr list" and write_col :: pystr and suffix :: nat
  assume w: "write_col \<in> set result_headers"
  show "((base, result_headers, suffixed base suffix, suffix + 1), base, result_headers, write_col, suffix)
      \<in> measure (\<lambda>(base, hs, w, s). 2 * card (pending base hs s) + (if w \<in> set hs then 1 else 0))"
  proof (cases "suffixed base suffix \<in> set result_headers")
    case True
    then show ?thesis using w by (simp add: card_pending_in)
  next
    case False
    then show ?thesis using w by (simp add: pending_Suc_out)
  qed
qed

declare unique_name.simps [simp del]

text \<open>
  The loop over the active mapping rows, with \<open>result_headers\<close> and \<open>col_plan\<close> as the
  accumulated lists.
\<close>

fun plan_columns ::
  "mapping_row list \<Rightarrow> pystr list \<Rightarrow> (pystr \<times> pystr) list \<Rightarrow> pystr list \<times> (pystr \<times> pystr) list" where
  "plan_columns [] result_headers col_plan = (result_headers, col_plan)"
| "plan_columns (r # rs) result_headers col_plan =
     (let src_col = full_var r; dst_col = masked_var r; mode = mode_var r in
      if src_col = [] then plan_columns rs result_headers col_plan
      else if dst_col = NEW_COLUMN \<or> mode = py ''append'' then
        (let write_col = unique_name src_col result_headers src_col 1 in
         plan_columns rs (result_headers @ [write_col]) (col_plan @ [(src_col, write_col)]))
      else plan_columns rs result_headers (col_plan @ [(src_col, dst_col)]))"

section \<open>Matching and completing the rows\<close>

text \<open>The loop that builds \<open>lookup\<close>; \<^verbatim>\<open>lookup[k] = row\<close> is an update of the dictionary.\<close>

fun build_lookup :: "pystr \<Rightarrow> row list \<Rightarrow> (pystr \<times> row) list \<Rightarrow> (pystr \<times> row) list" where
  "build_lookup full_key [] lookup = lookup"
| "build_lookup full_key (row # rows) lookup =
     (let k = strip (dict_get row full_key []) in
      build_lookup full_key rows (if k \<noteq> [] then AList.update k row lookup else lookup))"

text \<open>
  \<^verbatim>\<open>if src:\<close> tests the result of \<^verbatim>\<open>lookup.get(key_val)\<close>: \<^verbatim>\<open>None\<close> and the empty dictionary
  are both false.
\<close>

definition truthy :: "row option \<Rightarrow> bool" where
  "truthy src = (case src of None \<Rightarrow> False | Some d \<Rightarrow> d \<noteq> [])"

text \<open>\<^verbatim>\<open>src.get(src_col, "") if src else ""\<close>\<close>

definition src_value :: "row option \<Rightarrow> pystr \<Rightarrow> pystr" where
  "src_value src src_col = (if truthy src then dict_get (the src) src_col [] else [])"

text \<open>The inner loop \<^verbatim>\<open>for src_col, write_col in col_plan: new_row[write_col] = ...\<close>\<close>

fun write_columns :: "(pystr \<times> pystr) list \<Rightarrow> row option \<Rightarrow> row \<Rightarrow> row" where
  "write_columns [] src new_row = new_row"
| "write_columns ((src_col, write_col) # col_plan) src new_row =
     write_columns col_plan src (AList.update write_col (src_value src src_col) new_row)"

text \<open>
  The body of the loop over \<open>masked_rows\<close>, for one row: the completed row and whether the
  row counted as matched.
\<close>

definition match_row ::
  "(pystr \<times> row) list \<Rightarrow> pystr \<Rightarrow> (pystr \<times> pystr) list \<Rightarrow> row \<Rightarrow> row \<times> bool" where
  "match_row lookup masked_key col_plan row =
     (let new_row = row;
          key_val = strip (dict_get row masked_key []);
          src = map_of lookup key_val
      in (write_columns col_plan src new_row, truthy src))"

fun result_loop ::
  "(pystr \<times> row) list \<Rightarrow> pystr \<Rightarrow> (pystr \<times> pystr) list \<Rightarrow> row list \<Rightarrow> row list \<Rightarrow> int
     \<Rightarrow> row list \<times> int" where
  "result_loop lookup masked_key col_plan [] result_rows matched_count = (result_rows, matched_count)"
| "result_loop lookup masked_key col_plan (row # rows) result_rows matched_count =
     (case match_row lookup masked_key col_plan row of
        (new_row, matched) \<Rightarrow>
          result_loop lookup masked_key col_plan rows (result_rows @ [new_row])
            (if matched then matched_count + 1 else matched_count))"

section \<open>The rows as objects\<close>

text \<open>
  In Python the rows are dictionary objects held by reference: \<open>lookup\<close> maps a key to a
  reference row object, \<^verbatim>\<open>dict(row)\<close> makes a new object, and \<^verbatim>\<open>new_row[write_col] = ...\<close>
  changes that object in place. The loops are modelled a second time over an explicit
  store, in which a row is named by its address, so that what a run leaves unchanged can be
  stated. \<open>next_ref\<close> is the first address not in use.
\<close>

type_synonym ref = nat

record store =
  cells :: "ref \<Rightarrow> row"
  next_ref :: ref

text \<open>\<^verbatim>\<open>dict(row)\<close>: a new object with the given contents.\<close>

definition alloc :: "row \<Rightarrow> store \<Rightarrow> ref \<times> store" where
  "alloc d s = (next_ref s, s\<lparr>cells := (cells s)(next_ref s := d), next_ref := Suc (next_ref s)\<rparr>)"

fun build_lookup_refs ::
  "store \<Rightarrow> pystr \<Rightarrow> ref list \<Rightarrow> (pystr \<times> ref) list \<Rightarrow> (pystr \<times> ref) list" where
  "build_lookup_refs s full_key [] lookup = lookup"
| "build_lookup_refs s full_key (row # rows) lookup =
     (let k = strip (dict_get (cells s row) full_key []) in
      build_lookup_refs s full_key rows (if k \<noteq> [] then AList.update k row lookup else lookup))"

fun write_columns_refs :: "(pystr \<times> pystr) list \<Rightarrow> ref option \<Rightarrow> ref \<Rightarrow> store \<Rightarrow> store" where
  "write_columns_refs [] src new_row s = s"
| "write_columns_refs ((src_col, write_col) # col_plan) src new_row s =
     write_columns_refs col_plan src new_row
       (s\<lparr>cells := (cells s)(new_row :=
            AList.update write_col (src_value (map_option (cells s) src) src_col) (cells s new_row))\<rparr>)"

fun result_loop_refs ::
  "(pystr \<times> ref) list \<Rightarrow> pystr \<Rightarrow> (pystr \<times> pystr) list \<Rightarrow> ref list \<Rightarrow> ref list \<Rightarrow> int \<Rightarrow> store
     \<Rightarrow> (ref list \<times> int) \<times> store" where
  "result_loop_refs lookup masked_key col_plan [] result_rows matched_count s =
     ((result_rows, matched_count), s)"
| "result_loop_refs lookup masked_key col_plan (row # rows) result_rows matched_count s =
     (case alloc (cells s row) s of
        (new_row, s1) \<Rightarrow>
          (let key_val = strip (dict_get (cells s1 row) masked_key []);
               src = map_of lookup key_val;
               matched = truthy (map_option (cells s1) src);
               s2 = write_columns_refs col_plan src new_row s1
           in result_loop_refs lookup masked_key col_plan rows (result_rows @ [new_row])
                (if matched then matched_count + 1 else matched_count) s2))"

text \<open>
  \<^verbatim>\<open>_run\<close> up to the point where it asks for the output path: either one of the three
  warnings, after which nothing is computed, or the headers, rows and counts handed to
  the writer and the final message.
\<close>

datatype warning = NoFiles | NoKey | NoMapping

record run_result =
  result_headers :: "pystr list"
  col_plan :: "(pystr \<times> pystr) list"
  result_rows :: "row list"
  matched_count :: int
  total :: int
  unmatched :: int

definition run :: "app \<Rightarrow> warning + run_result" where
  "run self =
     (if full_rows self = [] \<or> masked_rows self = [] then Inl NoFiles
      else
        let full_key = strip (full_key_var self);
            masked_key = strip (masked_key_var self)
        in
          if full_key = [] \<or> masked_key = [] then Inl NoKey
          else
            let active_rows = filter active (mapping_rows self) in
              if active_rows = [] then Inl NoMapping
              else
                let lookup = build_lookup full_key (full_rows self) [] in
                  (case plan_columns active_rows (masked_headers self) [] of
                     (headers, plan) \<Rightarrow>
                       (case result_loop lookup masked_key plan (masked_rows self) [] 0 of
                          (rows, matched) \<Rightarrow>
                            Inr \<lparr>result_headers = headers, col_plan = plan, result_rows = rows,
                                 matched_count = matched, total = int (length rows),
                                 unmatched = int (length rows) - matched\<rparr>)))"

section \<open>One output row per target row\<close>

lemma result_loop_eq:
  "result_loop lookup mk plan rows acc n =
     (acc @ map (\<lambda>row. fst (match_row lookup mk plan row)) rows,
      n + int (length (filter (\<lambda>row. snd (match_row lookup mk plan row)) rows)))"
  by (induction rows arbitrary: acc n) (auto split: prod.splits)

lemma run_Inr:
  assumes "full_rows self \<noteq> []" and "masked_rows self \<noteq> []"
    and "strip (full_key_var self) \<noteq> []" and "strip (masked_key_var self) \<noteq> []"
    and "filter active (mapping_rows self) \<noteq> []"
  shows "run self =
     (let lookup = build_lookup (strip (full_key_var self)) (full_rows self) [];
          hp = plan_columns (filter active (mapping_rows self)) (masked_headers self) [];
          rm = result_loop lookup (strip (masked_key_var self)) (snd hp) (masked_rows self) [] 0
      in Inr \<lparr>result_headers = fst hp, col_plan = snd hp, result_rows = fst rm,
              matched_count = snd rm, total = int (length (fst rm)),
              unmatched = int (length (fst rm)) - snd rm\<rparr>)"
  using assms by (simp add: run_def Let_def split: prod.splits)

section \<open>Facts about the lookup table and the column writes\<close>

lemma strip_Nil: "strip [] = []"
  by (simp add: strip_def)

lemma dict_get_nonempty: "dict_get d k [] \<noteq> [] \<Longrightarrow> d \<noteq> []"
  by (auto simp: dict_get_def)

lemma build_lookup_map_of:
  "map_of (build_lookup fk rows lk) k =
     (if k \<noteq> [] \<and> (\<exists>r\<in>set rows. strip (dict_get r fk []) = k)
      then Some (last (filter (\<lambda>r. strip (dict_get r fk []) = k) rows))
      else map_of lk k)"
proof (induction rows arbitrary: lk)
  case Nil
  then show ?case by simp
next
  case (Cons r rs)
  show ?case
  proof (cases "k \<noteq> [] \<and> (\<exists>r\<in>set rs. strip (dict_get r fk []) = k)")
    case True
    then have "filter (\<lambda>r. strip (dict_get r fk []) = k) rs \<noteq> []"
      by (auto simp: filter_empty_conv)
    with True show ?thesis by (simp add: Cons.IH Let_def)
  next
    case False
    then have none: "k = [] \<or> (\<forall>r\<in>set rs. strip (dict_get r fk []) \<noteq> k)" by blast
    show ?thesis
    proof (cases "k = []")
      case True
      with Cons.IH have ih: "\<And>lk. map_of (build_lookup fk rs lk) [] = map_of lk []"
        by simp
      from True show ?thesis by (auto simp: ih Let_def update_conv')
    next
      case k: False
      with none have "filter (\<lambda>r. strip (dict_get r fk []) = k) rs = []"
        by (auto simp: filter_empty_conv)
      with k none show ?thesis
        by (simp add: Cons.IH Let_def update_conv')
    qed
  qed
qed

lemma build_lookup_empty_map_of:
  "map_of (build_lookup fk rows []) k =
     (if k \<noteq> [] \<and> (\<exists>r\<in>set rows. strip (dict_get r fk []) = k)
      then Some (last (filter (\<lambda>r. strip (dict_get r fk []) = k) rows))
      else None)"
  by (simp add: build_lookup_map_of)

lemma last_filter_props:
  assumes "\<exists>r\<in>set rows. P r"
  shows "last (filter P rows) \<in> set rows \<and> P (last (filter P rows))"
proof -
  from assms have ne: "filter P rows \<noteq> []" by (auto simp: filter_empty_conv)
  then have "last (filter P rows) \<in> set (filter P rows)" by (rule last_in_set)
  then show ?thesis by simp
qed

lemma build_lookup_truthy:
  "truthy (map_of (build_lookup fk rows []) k) \<longleftrightarrow>
     k \<noteq> [] \<and> (\<exists>r\<in>set rows. strip (dict_get r fk []) = k)"
proof (cases "k \<noteq> [] \<and> (\<exists>r\<in>set rows. strip (dict_get r fk []) = k)")
  case True
  let ?r = "last (filter (\<lambda>r. strip (dict_get r fk []) = k) rows)"
  from True have "strip (dict_get ?r fk []) = k"
    using last_filter_props [of rows "\<lambda>r. strip (dict_get r fk []) = k"] by blast
  with True have "dict_get ?r fk [] \<noteq> []" using strip_Nil by force
  then have "?r \<noteq> []" by (rule dict_get_nonempty)
  with True show ?thesis by (simp add: build_lookup_empty_map_of truthy_def)
next
  case False
  then show ?thesis by (auto simp: build_lookup_empty_map_of truthy_def)
qed

lemma build_lookup_last:
  assumes "strip (dict_get r fk []) = k" and "k \<noteq> []"
    and "\<forall>y\<in>set ys. strip (dict_get y fk []) \<noteq> k"
  shows "map_of (build_lookup fk (xs @ r # ys) []) k = Some r"
proof -
  from assms(3) have "filter (\<lambda>r. strip (dict_get r fk []) = k) ys = []"
    by (auto simp: filter_empty_conv)
  with assms(1,2) show ?thesis
    by (auto simp: build_lookup_empty_map_of)
qed

lemma find_append:
  "find P (xs @ ys) = (case find P xs of None \<Rightarrow> find P ys | Some x \<Rightarrow> Some x)"
  by (induction xs) auto

lemma find_SomeD: "find P xs = Some x \<Longrightarrow> x \<in> set xs \<and> P x"
  by (induction xs) (auto split: if_splits)

lemma find_snd_None: "c \<notin> snd ` set ps \<Longrightarrow> find (\<lambda>p. snd p = c) (rev ps) = None"
  by (force simp: find_None_iff)

lemma map_of_write_columns:
  "map_of (write_columns plan src new_row) c =
     (case find (\<lambda>p. snd p = c) (rev plan) of
        None \<Rightarrow> map_of new_row c
      | Some p \<Rightarrow> Some (src_value src (fst p)))"
proof (induction plan arbitrary: new_row)
  case Nil
  then show ?case by simp
next
  case (Cons p plan)
  obtain s w where p: "p = (s, w)" by (cases p)
  show ?case
    by (auto simp: p Cons.IH find_append update_conv' split: option.splits)
qed

lemma write_columns_last_wins:
  assumes "c \<notin> snd ` set p2"
  shows "map_of (write_columns (p1 @ (s, c) # p2) src new_row) c = Some (src_value src s)"
proof -
  from assms have "find (\<lambda>p. snd p = c) (rev p2) = None"
    by (rule find_snd_None)
  then show ?thesis by (simp add: map_of_write_columns find_append)
qed

lemma write_columns_frame:
  assumes "c \<notin> snd ` set plan"
  shows "map_of (write_columns plan src new_row) c = map_of new_row c"
proof -
  from assms have "find (\<lambda>p. snd p = c) (rev plan) = None"
    by (rule find_snd_None)
  then show ?thesis by (simp add: map_of_write_columns)
qed

lemma write_columns_written:
  assumes "c \<in> snd ` set plan"
  shows "\<exists>s. (s, c) \<in> set plan \<and> map_of (write_columns plan src new_row) c = Some (src_value src s)"
proof -
  from assms have "find (\<lambda>p. snd p = c) (rev plan) \<noteq> None"
    by (auto simp: find_None_iff)
  then obtain p where f: "find (\<lambda>p. snd p = c) (rev plan) = Some p" by auto
  then have "p \<in> set (rev plan) \<and> snd p = c"
    by (rule find_SomeD)
  then have "p \<in> set plan" "snd p = c" by simp_all
  with f show ?thesis by (cases p) (auto simp: map_of_write_columns)
qed

lemma run_InrD:
  assumes "run self = Inr res"
  shows "full_rows self \<noteq> []" and "masked_rows self \<noteq> []"
    and "strip (full_key_var self) \<noteq> []" and "strip (masked_key_var self) \<noteq> []"
    and "filter active (mapping_rows self) \<noteq> []"
  using assms by (auto simp: run_def Let_def split: if_splits)

lemma run_result:
  assumes "run self = Inr res"
  shows "result_headers res = fst (plan_columns (filter active (mapping_rows self)) (masked_headers self) [])"
    and "col_plan res = snd (plan_columns (filter active (mapping_rows self)) (masked_headers self) [])"
    and "result_rows res =
           map (\<lambda>row. fst (match_row (build_lookup (strip (full_key_var self)) (full_rows self) [])
                  (strip (masked_key_var self)) (col_plan res) row)) (masked_rows self)"
    and "matched_count res =
           int (length (filter (\<lambda>row. snd (match_row (build_lookup (strip (full_key_var self)) (full_rows self) [])
                  (strip (masked_key_var self)) (col_plan res) row)) (masked_rows self)))"
    and "total res = int (length (masked_rows self))"
    and "unmatched res = total res - matched_count res"
proof -
  note pre = run_InrD [OF assms]
  from assms have "res =
     (let lookup = build_lookup (strip (full_key_var self)) (full_rows self) [];
          hp = plan_columns (filter active (mapping_rows self)) (masked_headers self) [];
          rm = result_loop lookup (strip (masked_key_var self)) (snd hp) (masked_rows self) [] 0
      in \<lparr>result_headers = fst hp, col_plan = snd hp, result_rows = fst rm,
              matched_count = snd rm, total = int (length (fst rm)),
              unmatched = int (length (fst rm)) - snd rm\<rparr>)"
    by (simp add: run_Inr [OF pre] Let_def)
  then have res: "res = \<lparr>result_headers = fst (plan_columns (filter active (mapping_rows self)) (masked_headers self) []),
       col_plan = snd (plan_columns (filter active (mapping_rows self)) (masked_headers self) []),
       result_rows = map (\<lambda>row. fst (match_row (build_lookup (strip (full_key_var self)) (full_rows self) [])
                  (strip (masked_key_var self)) (snd (plan_columns (filter active (mapping_rows self)) (masked_headers self) [])) row)) (masked_rows self),
       matched_count = int (length (filter (\<lambda>row. snd (match_row (build_lookup (strip (full_key_var self)) (full_rows self) [])
                  (strip (masked_key_var self)) (snd (plan_columns (filter active (mapping_rows self)) (masked_headers self) [])) row)) (masked_rows self))),
       total = int (length (masked_rows self)),
       unmatched = int (length (masked_rows self)) - int (length (filter (\<lambda>row. snd (match_row (build_lookup (strip (full_key_var self)) (full_rows self) [])
                  (strip (masked_key_var self)) (snd (plan_columns (filter active (mapping_rows self)) (masked_headers self) [])) row)) (masked_rows self)))\<rparr>"
    by (simp add: Let_def result_loop_eq)
  show "result_headers res = fst (plan_columns (filter active (mapping_rows self)) (masked_headers self) [])"
    by (subst res) simp
  show cp: "col_plan res = snd (plan_columns (filter active (mapping_rows self)) (masked_headers self) [])"
    by (subst res) simp
  show "result_rows res =
           map (\<lambda>row. fst (match_row (build_lookup (strip (full_key_var self)) (full_rows self) [])
                  (strip (masked_key_var self)) (col_plan res) row)) (masked_rows self)"
    unfolding cp by (subst res) simp
  show mc: "matched_count res =
           int (length (filter (\<lambda>row. snd (match_row (build_lookup (strip (full_key_var self)) (full_rows self) [])
                  (strip (masked_key_var self)) (col_plan res) row)) (masked_rows self)))"
    unfolding cp by (subst res) simp
  show tt: "total res = int (length (masked_rows self))"
    by (subst res) simp
  show "unmatched res = total res - matched_count res"
    unfolding tt mc cp by (subst res) simp
qed

lemma match_row_fst:
  "fst (match_row lookup mk plan row) = write_columns plan (map_of lookup (strip (dict_get row mk []))) row"
  by (simp add: match_row_def Let_def)

lemma match_row_snd:
  "snd (match_row lookup mk plan row) = truthy (map_of lookup (strip (dict_get row mk [])))"
  by (simp add: match_row_def Let_def)

lemma src_value_eq:
  "src_value src s = (case src of None \<Rightarrow> [] | Some d \<Rightarrow> dict_get d s [])"
  by (cases src) (auto simp: src_value_def truthy_def dict_get_def)

lemma build_lookup_truthy_Some:
  "truthy (map_of (build_lookup fk rows []) k) \<longleftrightarrow> map_of (build_lookup fk rows []) k \<noteq> None"
  by (simp add: build_lookup_truthy) (simp add: build_lookup_empty_map_of)

lemma build_lookup_no_key:
  assumes "\<forall>r\<in>set rows. map_of r fk = None"
  shows "build_lookup fk rows lk = lk"
  using assms by (induction rows arbitrary: lk) (simp_all add: dict_get_def strip_Nil)

section \<open>Facts about the column plan\<close>

lemma unique_name_hit:
  "w \<in> set hs \<Longrightarrow> unique_name base hs w s = unique_name base hs (suffixed base s) (s + 1)"
  by (subst unique_name.simps) simp

lemma unique_name_miss:
  "w \<notin> set hs \<Longrightarrow> unique_name base hs w s = w"
  by (subst unique_name.simps) simp

lemma unique_name_fresh: "unique_name base hs w s \<notin> set hs"
proof (induction base hs w s rule: unique_name.induct)
  case (1 base hs w s)
  show ?case
  proof (cases "w \<in> set hs")
    case True
    with 1 show ?thesis by (simp add: unique_name_hit)
  next
    case False
    then show ?thesis by (simp add: unique_name_miss)
  qed
qed

lemma unique_name_least:
  "w \<in> set hs \<Longrightarrow>
     \<exists>n\<ge>s. unique_name base hs w s = suffixed base n \<and>
            (\<forall>m. s \<le> m \<and> m < n \<longrightarrow> suffixed base m \<in> set hs)"
proof (induction base hs w s rule: unique_name.induct)
  case (1 base hs w s)
  show ?case
  proof (cases "suffixed base s \<in> set hs")
    case True
    from "1.IH" [OF "1.prems" True] obtain n where n: "s + 1 \<le> n"
      "unique_name base hs (suffixed base s) (s + 1) = suffixed base n"
      "\<forall>m. s + 1 \<le> m \<and> m < n \<longrightarrow> suffixed base m \<in> set hs"
      by blast
    have "\<forall>m. s \<le> m \<and> m < n \<longrightarrow> suffixed base m \<in> set hs"
    proof (intro allI impI)
      fix m assume m: "s \<le> m \<and> m < n"
      show "suffixed base m \<in> set hs"
      proof (cases "m = s")
        case True
        with \<open>suffixed base s \<in> set hs\<close> show ?thesis by simp
      next
        case False
        with m n(3) show ?thesis by simp
      qed
    qed
    with n(1,2) "1.prems" show ?thesis
      by (intro exI [of _ n]) (simp add: unique_name_hit)
  next
    case False
    with "1.prems" show ?thesis
      by (intro exI [of _ s]) (auto simp: unique_name_hit unique_name_miss)
  qed
qed

lemma plan_columns_skip:
  "full_var r = [] \<Longrightarrow> plan_columns (r # rs) hs plan = plan_columns rs hs plan"
  by simp

lemma plan_columns_append:
  "full_var r \<noteq> [] \<Longrightarrow> masked_var r = NEW_COLUMN \<or> mode_var r = py ''append'' \<Longrightarrow>
     plan_columns (r # rs) hs plan =
       plan_columns rs (hs @ [unique_name (full_var r) hs (full_var r) 1])
         (plan @ [(full_var r, unique_name (full_var r) hs (full_var r) 1)])"
  by (simp add: Let_def)

lemma plan_columns_overwrite:
  "full_var r \<noteq> [] \<Longrightarrow> \<not> (masked_var r = NEW_COLUMN \<or> mode_var r = py ''append'') \<Longrightarrow>
     plan_columns (r # rs) hs plan = plan_columns rs hs (plan @ [(full_var r, masked_var r)])"
  by (simp add: Let_def)

lemma plan_columns_shape:
  "\<exists>new. snd (plan_columns rs hs plan) = plan @ new \<and>
     map fst new = map full_var (filter (\<lambda>r. full_var r \<noteq> []) rs) \<and>
     fst (plan_columns rs hs plan) =
       hs @ map (\<lambda>(r, p). snd p) (filter (\<lambda>(r, p). masked_var r = NEW_COLUMN \<or> mode_var r = py ''append'')
                      (zip (filter (\<lambda>r. full_var r \<noteq> []) rs) new)) \<and>
     (\<forall>j<length new.
        \<not> (masked_var (filter (\<lambda>r. full_var r \<noteq> []) rs ! j) = NEW_COLUMN \<or>
           mode_var (filter (\<lambda>r. full_var r \<noteq> []) rs ! j) = py ''append'') \<longrightarrow>
        snd (new ! j) = masked_var (filter (\<lambda>r. full_var r \<noteq> []) rs ! j)) \<and>
     (distinct hs \<longrightarrow> distinct (fst (plan_columns rs hs plan)))"
proof (induction rs arbitrary: hs plan)
  case Nil
  show ?case by simp
next
  case (Cons r rs)
  let ?es = "filter (\<lambda>r. full_var r \<noteq> []) rs"
  let ?app = "\<lambda>r. masked_var r = NEW_COLUMN \<or> mode_var r = py ''append''"
  consider (skip) "full_var r = []"
    | (app) "full_var r \<noteq> []" "?app r"
    | (over) "full_var r \<noteq> []" "\<not> ?app r"
    by blast
  then show ?case
  proof cases
    case skip
    with Cons.IH [of hs plan] show ?thesis
      by (simp only: plan_columns_skip [OF skip] filter.simps) simp
  next
    case app
    let ?w = "unique_name (full_var r) hs (full_var r) 1"
    from Cons.IH [of "hs @ [?w]" "plan @ [(full_var r, ?w)]"] obtain new where new:
      "snd (plan_columns rs (hs @ [?w]) (plan @ [(full_var r, ?w)])) = (plan @ [(full_var r, ?w)]) @ new"
      "map fst new = map full_var ?es"
      "fst (plan_columns rs (hs @ [?w]) (plan @ [(full_var r, ?w)])) =
         (hs @ [?w]) @ map (\<lambda>(r, p). snd p) (filter (\<lambda>(r, p). ?app r) (zip ?es new))"
      "\<forall>j<length new. \<not> ?app (?es ! j) \<longrightarrow> snd (new ! j) = masked_var (?es ! j)"
      "distinct (hs @ [?w]) \<longrightarrow> distinct (fst (plan_columns rs (hs @ [?w]) (plan @ [(full_var r, ?w)])))"
      by blast
    have fresh: "?w \<notin> set hs" by (rule unique_name_fresh)
    have idx: "\<forall>j<length ((full_var r, ?w) # new).
        \<not> ?app ((r # ?es) ! j) \<longrightarrow> snd (((full_var r, ?w) # new) ! j) = masked_var ((r # ?es) ! j)"
      using new(4) app(2) by (auto simp: nth_Cons split: nat.splits)
    show ?thesis
      apply (rule exI [of _ "(full_var r, ?w) # new"])
      apply (simp only: plan_columns_append [OF app])
      using new(1,2,3,5) idx app fresh apply simp
      done
  next
    case over
    from Cons.IH [of hs "plan @ [(full_var r, masked_var r)]"] obtain new where new:
      "snd (plan_columns rs hs (plan @ [(full_var r, masked_var r)])) = (plan @ [(full_var r, masked_var r)]) @ new"
      "map fst new = map full_var ?es"
      "fst (plan_columns rs hs (plan @ [(full_var r, masked_var r)])) =
         hs @ map (\<lambda>(r, p). snd p) (filter (\<lambda>(r, p). ?app r) (zip ?es new))"
      "\<forall>j<length new. \<not> ?app (?es ! j) \<longrightarrow> snd (new ! j) = masked_var (?es ! j)"
      "distinct hs \<longrightarrow> distinct (fst (plan_columns rs hs (plan @ [(full_var r, masked_var r)])))"
      by blast
    have idx: "\<forall>j<length ((full_var r, masked_var r) # new).
        \<not> ?app ((r # ?es) ! j) \<longrightarrow> snd (((full_var r, masked_var r) # new) ! j) = masked_var ((r # ?es) ! j)"
      using new(4) by (auto simp: nth_Cons split: nat.splits)
    show ?thesis
      apply (rule exI [of _ "(full_var r, masked_var r) # new"])
      apply (simp only: plan_columns_overwrite [OF over])
      using new(1,2,3,5) idx over apply simp
      done
  qed
qed

section \<open>The store model against the functional one\<close>

lemma update_map_snd:
  "AList.update k (f a) (map (\<lambda>(k, a). (k, f a)) lk) = map (\<lambda>(k, a). (k, f a)) (AList.update k a lk)"
  by (induction lk) auto

lemma build_lookup_refs_deref:
  "map (\<lambda>(k, a). (k, cells s a)) (build_lookup_refs s fk refs lk) =
     build_lookup fk (map (cells s) refs) (map (\<lambda>(k, a). (k, cells s a)) lk)"
  by (induction refs arbitrary: lk) (simp_all add: Let_def update_map_snd)

lemma build_lookup_refs_range:
  "snd ` set (build_lookup_refs s fk refs lk) \<subseteq> snd ` set lk \<union> set refs"
proof (induction refs arbitrary: lk)
  case Nil
  show ?case by simp
next
  case (Cons a refs)
  let ?k = "strip (dict_get (cells s a) fk [])"
  have upd: "snd ` set (AList.update ?k a lk) \<subseteq> insert a (snd ` set lk)"
    by (induction lk) auto
  show ?case
  proof (cases "?k = []")
    case True
    with Cons [of lk] show ?thesis by (simp add: Let_def) blast
  next
    case False
    have "snd ` set (build_lookup_refs s fk refs (AList.update ?k a lk))
            \<subseteq> snd ` set (AList.update ?k a lk) \<union> set refs"
      by (rule Cons)
    also have "\<dots> \<subseteq> snd ` set lk \<union> set (a # refs)"
      using upd by auto
    finally show ?thesis using False by (simp add: Let_def)
  qed
qed

lemma write_columns_refs_cells:
  assumes "src \<noteq> Some new_row"
  shows "write_columns_refs plan src new_row s =
           s\<lparr>cells := (cells s)(new_row := write_columns plan (map_option (cells s) src) (cells s new_row))\<rparr>"
  using assms
proof (induction plan arbitrary: s)
  case Nil
  show ?case by simp
next
  case (Cons p plan)
  obtain sc wc where p: "p = (sc, wc)" by (cases p)
  let ?s1 = "s\<lparr>cells := (cells s)(new_row :=
            AList.update wc (src_value (map_option (cells s) src) sc) (cells s new_row))\<rparr>"
  from Cons.prems have same: "map_option (cells ?s1) src = map_option (cells s) src"
    by (cases src) auto
  have "write_columns_refs (p # plan) src new_row s = write_columns_refs plan src new_row ?s1"
    by (simp add: p)
  also have "\<dots> = ?s1\<lparr>cells := (cells ?s1)(new_row :=
                 write_columns plan (map_option (cells ?s1) src) (cells ?s1 new_row))\<rparr>"
    by (rule Cons.IH [OF Cons.prems])
  also have "\<dots> = s\<lparr>cells := (cells s)(new_row :=
                 write_columns (p # plan) (map_option (cells s) src) (cells s new_row))\<rparr>"
    by (simp only: same) (simp add: p)
  finally show ?case .
qed

lemma map_of_deref:
  "map_of (map (\<lambda>(k, a). (k, cells s a)) lk) k = map_option (cells s) (map_of lk k)"
  by (simp add: map_of_map)

lemma result_loop_refs_sound:
  assumes "result_loop_refs lk mk plan rows acc n s = ((acc', n'), s')"
    and "\<forall>a\<in>snd ` set lk \<union> set rows. a < next_ref s"
  shows "(\<forall>a<next_ref s. cells s' a = cells s a) \<and> next_ref s \<le> next_ref s' \<and>
         (\<exists>new. acc' = acc @ new \<and> length new = length rows \<and>
            (\<forall>a\<in>set new. next_ref s \<le> a \<and> a < next_ref s') \<and>
            map (cells s') new =
              map (\<lambda>row. fst (match_row (map (\<lambda>(k, a). (k, cells s a)) lk) mk plan row))
                (map (cells s) rows)) \<and>
         n' = n + int (length (filter
                (\<lambda>row. snd (match_row (map (\<lambda>(k, a). (k, cells s a)) lk) mk plan row))
                (map (cells s) rows)))"
  using assms
proof (induction rows arbitrary: acc n s)
  case Nil
  then show ?case by simp
next
  case (Cons row rows)
  let ?new = "next_ref s"
  let ?s1 = "s\<lparr>cells := (cells s)(?new := cells s row), next_ref := Suc ?new\<rparr>"
  let ?src = "map_of lk (strip (dict_get (cells s row) mk []))"
  let ?s2 = "write_columns_refs plan ?src ?new ?s1"
  let ?lkp = "map (\<lambda>(k, a). (k, cells s a)) lk"
  from Cons.prems(2) have row: "row < ?new" and rows: "\<forall>a\<in>set rows. a < ?new"
    and lkr: "\<forall>a\<in>snd ` set lk. a < ?new"
    by auto
  have src: "?src \<noteq> Some ?new"
  proof
    assume "?src = Some ?new"
    then have "?new \<in> snd ` set lk" by (force dest: map_of_SomeD)
    with lkr show False by auto
  qed
  have src_old: "map_option (cells ?s1) ?src = map_option (cells s) ?src"
  proof (cases ?src)
    case None
    then show ?thesis by simp
  next
    case (Some a)
    then have "a \<in> snd ` set lk" by (force dest: map_of_SomeD)
    with lkr have "a < ?new" by auto
    with Some show ?thesis by simp
  qed
  have s2: "?s2 = ?s1\<lparr>cells := (cells ?s1)(?new :=
               write_columns plan (map_option (cells s) ?src) (cells s row))\<rparr>"
    using write_columns_refs_cells [OF src, of plan ?s1] src_old by simp
  have old2: "\<forall>a<?new. cells ?s2 a = cells s a" by (simp add: s2)
  have next2: "next_ref ?s2 = Suc ?new" by (simp add: s2)
  have new2: "cells ?s2 ?new = fst (match_row ?lkp mk plan (cells s row))"
    by (simp add: s2 match_row_fst map_of_deref)
  have matched: "truthy (map_option (cells ?s1) ?src) = snd (match_row ?lkp mk plan (cells s row))"
    by (simp only: src_old) (simp add: match_row_snd map_of_deref)
  then have matched': "truthy (map_option ((cells s)(?new := cells s row)) ?src) =
      snd (match_row ?lkp mk plan (cells s row))"
    by simp
  have row1: "cells ?s1 row = cells s row" using row by simp
  from Cons.prems(1) have run:
    "result_loop_refs lk mk plan rows (acc @ [?new])
       (if snd (match_row ?lkp mk plan (cells s row)) then n + 1 else n) ?s2 = ((acc', n'), s')"
    using row by (simp add: alloc_def Let_def matched' del: write_columns_refs.simps)
  have pre2: "\<forall>a\<in>snd ` set lk \<union> set rows. a < next_ref ?s2"
    using rows lkr by (auto simp: next2)
  have lkp2: "map (\<lambda>(k, a). (k, cells ?s2 a)) lk = ?lkp"
    using lkr old2 by (auto simp: image_iff)
  have rows2: "map (cells ?s2) rows = map (cells s) rows"
    using rows old2 by simp
  from Cons.IH [OF run pre2] obtain new where ih:
    "\<forall>a<next_ref ?s2. cells s' a = cells ?s2 a" "next_ref ?s2 \<le> next_ref s'"
    "acc' = (acc @ [?new]) @ new" "length new = length rows"
    "\<forall>a\<in>set new. next_ref ?s2 \<le> a \<and> a < next_ref s'"
    "map (cells s') new = map (\<lambda>row. fst (match_row ?lkp mk plan row)) (map (cells s) rows)"
    "n' = (if snd (match_row ?lkp mk plan (cells s row)) then n + 1 else n) +
           int (length (filter (\<lambda>row. snd (match_row ?lkp mk plan row)) (map (cells s) rows)))"
    unfolding lkp2 rows2 by blast
  have frame: "\<forall>a<?new. cells s' a = cells s a"
    using ih(1) old2 by (simp add: next2)
  have le: "?new \<le> next_ref s'" using ih(2) by (simp add: next2)
  have newcell: "cells s' ?new = fst (match_row ?lkp mk plan (cells s row))"
    using ih(1) new2 by (simp add: next2)
  have fresh: "\<forall>a\<in>set (?new # new). ?new \<le> a \<and> a < next_ref s'"
    using ih(2,5) by (auto simp: next2)
  have "acc' = acc @ (?new # new) \<and> length (?new # new) = length (row # rows) \<and>
        (\<forall>a\<in>set (?new # new). ?new \<le> a \<and> a < next_ref s') \<and>
        map (cells s') (?new # new) =
          map (\<lambda>row. fst (match_row ?lkp mk plan row)) (map (cells s) (row # rows))"
    using ih(3,4,6) fresh newcell by simp
  moreover have "n' = n + int (length (filter (\<lambda>row. snd (match_row ?lkp mk plan row))
                  (map (cells s) (row # rows))))"
    using ih(7) by simp
  ultimately show ?case using frame le by blast
qed

section \<open>The scenario of the specification\<close>

text \<open>
  The scenario of the specification: two reference rows, two target rows, keys \<open>id\<close> and
  \<open>uid\<close>, and one mapping row that overwrites \<open>dept\<close> with \<open>name\<close>.
\<close>

definition scenario :: app where
  "scenario = \<lparr>full_headers = [py ''id'', py ''name''],
     full_rows = [[(py ''id'', py ''1''), (py ''name'', py ''Alice'')],
                  [(py ''id'', py ''2''), (py ''name'', py ''Bob'')]],
     masked_headers = [py ''uid'', py ''dept''],
     masked_rows = [[(py ''uid'', py ''1''), (py ''dept'', [])],
                    [(py ''uid'', py ''3''), (py ''dept'', [])]],
     mapping_rows = [\<lparr>full_var = py ''name'', masked_var = py ''dept'',
                       mode_var = py ''overwrite'', active = True\<rparr>],
     full_key_var = py ''id'', masked_key_var = py ''uid''\<rparr>"

lemmas eval_defs = py_def strip_def isspace_def dict_get_def truthy_def src_value_def
  match_row_def NEW_COLUMN_def run_def Let_def

lemma scenario_run:
  "run scenario =
     Inr \<lparr>result_headers = [py ''uid'', py ''dept''], col_plan = [(py ''name'', py ''dept'')],
          result_rows = [[(py ''uid'', py ''1''), (py ''dept'', py ''Alice'')],
                         [(py ''uid'', py ''3''), (py ''dept'', [])]],
          matched_count = 1, total = 2, unmatched = 1\<rparr>"
  by (simp add: scenario_def eval_defs)

lemma strip_ascii [simp]:
  "strip (py ''id'') = py ''id''" "strip (py ''uid'') = py ''uid''"
  "strip (py ''1'') = py ''1''" "strip (py ''2'') = py ''2''" "strip (py ''3'') = py ''3''"
  by (simp_all add: strip_def py_def isspace_def)

text \<open>The scenario with a second reference row for key 1, and with two mapping rows that
  overwrite the same column.\<close>

definition scenario_dup :: app where
  "scenario_dup = scenario\<lparr>full_rows :=
     [[(py ''id'', py ''1''), (py ''name'', py ''Alice'')],
      [(py ''id'', py ''1''), (py ''name'', py ''Carol'')],
      [(py ''id'', py ''2''), (py ''name'', py ''Bob'')]]\<rparr>"

lemma scenario_dup_run:
  "run scenario_dup =
     Inr \<lparr>result_headers = [py ''uid'', py ''dept''], col_plan = [(py ''name'', py ''dept'')],
          result_rows = [[(py ''uid'', py ''1''), (py ''dept'', py ''Carol'')],
                         [(py ''uid'', py ''3''), (py ''dept'', [])]],
          matched_count = 1, total = 2, unmatched = 1\<rparr>"
  by (simp add: scenario_dup_def scenario_def eval_defs)

definition scenario_same_col :: app where
  "scenario_same_col = scenario\<lparr>mapping_rows :=
     [\<lparr>full_var = py ''name'', masked_var = py ''dept'', mode_var = py ''overwrite'', active = True\<rparr>,
      \<lparr>full_var = py ''id'', masked_var = py ''dept'', mode_var = py ''overwrite'', active = True\<rparr>]\<rparr>"

lemma scenario_same_col_run:
  "run scenario_same_col =
     Inr \<lparr>result_headers = [py ''uid'', py ''dept''],
          col_plan = [(py ''name'', py ''dept''), (py ''id'', py ''dept'')],
          result_rows = [[(py ''uid'', py ''1''), (py ''dept'', py ''1'')],
                         [(py ''uid'', py ''3''), (py ''dept'', [])]],
          matched_count = 1, total = 2, unmatched = 1\<rparr>"
  by (simp add: scenario_same_col_def scenario_def eval_defs)

definition scenario_no_key :: app where
  "scenario_no_key = scenario\<lparr>full_key_var := py ''code''\<rparr>"

lemma scenario_no_key_run:
  "run scenario_no_key =
     Inr \<lparr>result_headers = [py ''uid'', py ''dept''], col_plan = [(py ''name'', py ''dept'')],
          result_rows = [[(py ''uid'', py ''1''), (py ''dept'', [])],
                         [(py ''uid'', py ''3''), (py ''dept'', [])]],
          matched_count = 0, total = 2, unmatched = 2\<rparr>"
  by (simp add: scenario_no_key_def scenario_def eval_defs)

text \<open>A mapping row that appends the reference column \<open>name\<close> as a new column.\<close>

definition append_name :: mapping_row where
  "append_name = \<lparr>full_var = py ''name'', masked_var = NEW_COLUMN, mode_var = py ''overwrite'',
                  active = True\<rparr>"

text \<open>The rows of the scenario as four objects of a store, and the row loop run on them.\<close>

definition scenario_store :: store where
  "scenario_store =
     \<lparr>cells = (\<lambda>a. [])
        (0 := [(py ''id'', py ''1''), (py ''name'', py ''Alice'')],
         1 := [(py ''id'', py ''2''), (py ''name'', py ''Bob'')],
         2 := [(py ''uid'', py ''1''), (py ''dept'', [])],
         3 := [(py ''uid'', py ''3''), (py ''dept'', [])]),
      next_ref = 4\<rparr>"

definition scenario_store_run :: "(ref list \<times> int) \<times> store" where
  "scenario_store_run =
     result_loop_refs (build_lookup_refs scenario_store (py ''id'') [0, 1] []) (py ''uid'')
       [(py ''name'', py ''dept'')] [2, 3] [] 0 scenario_store"

lemma scenario_store_run_value:
  "fst scenario_store_run = ([4, 5], 1) \<and>
   cells (snd scenario_store_run) 4 = [(py ''uid'', py ''1''), (py ''dept'', py ''Alice'')] \<and>
   cells (snd scenario_store_run) 5 = [(py ''uid'', py ''3''), (py ''dept'', [])]"
  by (simp add: scenario_store_run_def scenario_store_def alloc_def eval_defs)

section \<open>Claims about the matcher\<close>

text \<open>
  Claim C1. When both lists are loaded, both key selections are non-empty after trimming and
  at least one mapping row is active, \<^verbatim>\<open>_run\<close> produces a result whose row list has exactly
  as many rows as the target list, and output row \<open>i\<close> is the completion of target row \<open>i\<close>:
  no row is dropped or reordered.
\<close>

theorem run_one_row_per_target_row:
  assumes "full_rows self \<noteq> []" and "masked_rows self \<noteq> []"
    and "strip (full_key_var self) \<noteq> []" and "strip (masked_key_var self) \<noteq> []"
    and "filter active (mapping_rows self) \<noteq> []"
  shows "\<exists>res. run self = Inr res \<and>
           length (result_rows res) = length (masked_rows self) \<and>
           total res = int (length (masked_rows self)) \<and>
           (\<forall>i<length (masked_rows self).
              result_rows res ! i =
                fst (match_row (build_lookup (strip (full_key_var self)) (full_rows self) [])
                       (strip (masked_key_var self)) (col_plan res) (masked_rows self ! i)))"
  using assms by (simp add: run_Inr result_loop_eq Let_def)

theorem run_one_row_per_target_row_witness:
  "full_rows scenario \<noteq> [] \<and> masked_rows scenario \<noteq> [] \<and>
   strip (full_key_var scenario) \<noteq> [] \<and> strip (masked_key_var scenario) \<noteq> [] \<and>
   filter active (mapping_rows scenario) \<noteq> [] \<and>
   (\<exists>res. run scenario = Inr res \<and> length (result_rows res) = 2 \<and> total res = 2 \<and>
      result_rows res ! 0 = [(py ''uid'', py ''1''), (py ''dept'', py ''Alice'')] \<and>
      result_rows res ! 1 = [(py ''uid'', py ''3''), (py ''dept'', [])])"
proof -
  have pre: "full_rows scenario \<noteq> []" "masked_rows scenario \<noteq> []"
    "strip (full_key_var scenario) \<noteq> []" "strip (masked_key_var scenario) \<noteq> []"
    "filter active (mapping_rows scenario) \<noteq> []"
    by (simp_all add: scenario_def strip_def isspace_def py_def)
  from run_one_row_per_target_row [OF pre] obtain res where
    "run scenario = Inr res" "length (result_rows res) = length (masked_rows scenario)"
    by blast
  then have "res = \<lparr>result_headers = [py ''uid'', py ''dept''], col_plan = [(py ''name'', py ''dept'')],
          result_rows = [[(py ''uid'', py ''1''), (py ''dept'', py ''Alice'')],
                         [(py ''uid'', py ''3''), (py ''dept'', [])]],
          matched_count = 1, total = 2, unmatched = 1\<rparr>"
    by (simp add: scenario_run)
  then have "run scenario = Inr res \<and> length (result_rows res) = 2 \<and> total res = 2 \<and>
      result_rows res ! 0 = [(py ''uid'', py ''1''), (py ''dept'', py ''Alice'')] \<and>
      result_rows res ! 1 = [(py ''uid'', py ''3''), (py ''dept'', [])]"
    by (simp add: scenario_run)
  with pre show ?thesis by blast
qed

text \<open>
  Claim C2. A target row counts as matched, and is completed from a reference row, exactly
  when its trimmed key is non-empty and equals the trimmed key of some reference row;
  \<open>matched_count\<close> is the number of such target rows. A target row with an empty trimmed key
  is never matched, since the lookup table has no entry for the empty key.
\<close>

theorem matched_iff_key_found:
  assumes "run self = Inr res"
    and "fk = strip (full_key_var self)" and "mk = strip (masked_key_var self)"
    and "lookup = build_lookup fk (full_rows self) []"
  shows "(\<forall>row. snd (match_row lookup mk (col_plan res) row) \<longleftrightarrow>
            strip (dict_get row mk []) \<noteq> [] \<and>
            (\<exists>r\<in>set (full_rows self). strip (dict_get r fk []) = strip (dict_get row mk []))) \<and>
         matched_count res =
           int (length (filter (\<lambda>row. strip (dict_get row mk []) \<noteq> [] \<and>
                  (\<exists>r\<in>set (full_rows self). strip (dict_get r fk []) = strip (dict_get row mk [])))
                (masked_rows self))) \<and>
         (\<forall>row. snd (match_row lookup mk (col_plan res) row) \<longrightarrow>
            (\<exists>r\<in>set (full_rows self).
                strip (dict_get r fk []) = strip (dict_get row mk []) \<and>
                fst (match_row lookup mk (col_plan res) row) = write_columns (col_plan res) (Some r) row)) \<and>
         (\<forall>row. \<not> snd (match_row lookup mk (col_plan res) row) \<longrightarrow>
            (\<forall>c. map_of (fst (match_row lookup mk (col_plan res) row)) c =
                   (if c \<in> snd ` set (col_plan res) then Some [] else map_of row c))) \<and>
         (\<forall>row. strip (dict_get row mk []) = [] \<longrightarrow> \<not> snd (match_row lookup mk (col_plan res) row)) \<and>
         map_of lookup [] = None"
proof -
  have iff: "snd (match_row lookup mk plan row) \<longleftrightarrow>
            strip (dict_get row mk []) \<noteq> [] \<and>
            (\<exists>r\<in>set (full_rows self). strip (dict_get r fk []) = strip (dict_get row mk []))"
    for row plan
    by (simp add: match_row_snd assms(4) build_lookup_truthy)
  have cnt: "matched_count res =
           int (length (filter (\<lambda>row. strip (dict_get row mk []) \<noteq> [] \<and>
                  (\<exists>r\<in>set (full_rows self). strip (dict_get r fk []) = strip (dict_get row mk [])))
                (masked_rows self)))"
    using run_result(4) [OF assms(1)] iff by (simp add: assms(2,3,4))
  have given: "\<exists>r\<in>set (full_rows self).
                strip (dict_get r fk []) = strip (dict_get row mk []) \<and>
                fst (match_row lookup mk plan row) = write_columns plan (Some r) row"
    if m: "snd (match_row lookup mk plan row)" for row plan
  proof -
    let ?k = "strip (dict_get row mk [])"
    let ?r = "last (filter (\<lambda>r. strip (dict_get r fk []) = ?k) (full_rows self))"
    from m iff have k: "?k \<noteq> []" "\<exists>r\<in>set (full_rows self). strip (dict_get r fk []) = ?k"
      by blast+
    then have "map_of lookup ?k = Some ?r"
      by (simp add: assms(4) build_lookup_empty_map_of)
    moreover have "?r \<in> set (full_rows self) \<and> strip (dict_get ?r fk []) = ?k"
      using last_filter_props [OF k(2)] .
    ultimately show ?thesis by (auto simp: match_row_fst)
  qed
  have notgiven: "map_of (fst (match_row lookup mk plan row)) c =
                   (if c \<in> snd ` set plan then Some [] else map_of row c)"
    if m: "\<not> snd (match_row lookup mk plan row)" for row plan c
  proof -
    from m have "src_value (map_of lookup (strip (dict_get row mk []))) s = []" for s
      by (simp add: match_row_snd src_value_def)
    then show ?thesis
      using write_columns_written [of c plan "map_of lookup (strip (dict_get row mk []))" row]
      by (auto simp: match_row_fst write_columns_frame)
  qed
  have empty: "\<not> snd (match_row lookup mk plan row)" if "strip (dict_get row mk []) = []" for row plan
    using that iff by simp
  have "map_of lookup [] = None"
    by (simp add: assms(4) build_lookup_empty_map_of)
  with iff cnt given notgiven empty show ?thesis by blast
qed

theorem matched_iff_key_found_witness:
  "run scenario = Inr \<lparr>result_headers = [py ''uid'', py ''dept''], col_plan = [(py ''name'', py ''dept'')],
          result_rows = [[(py ''uid'', py ''1''), (py ''dept'', py ''Alice'')],
                         [(py ''uid'', py ''3''), (py ''dept'', [])]],
          matched_count = 1, total = 2, unmatched = 1\<rparr> \<and>
   snd (match_row (build_lookup (py ''id'') (full_rows scenario) []) (py ''uid'')
          [(py ''name'', py ''dept'')] [(py ''uid'', py ''1''), (py ''dept'', [])]) \<and>
   \<not> snd (match_row (build_lookup (py ''id'') (full_rows scenario) []) (py ''uid'')
          [(py ''name'', py ''dept'')] [(py ''uid'', py ''3''), (py ''dept'', [])]) \<and>
   length (filter (\<lambda>row. strip (dict_get row (py ''uid'') []) \<noteq> [] \<and>
                  (\<exists>r\<in>set (full_rows scenario). strip (dict_get r (py ''id'') []) = strip (dict_get row (py ''uid'') [])))
                (masked_rows scenario)) = 1"
proof -
  have fk: "py ''id'' = strip (full_key_var scenario)" and mk: "py ''uid'' = strip (masked_key_var scenario)"
    by (simp_all add: scenario_def)
  note inst = matched_iff_key_found [OF scenario_run fk mk refl]
  from inst have iff: "snd (match_row (build_lookup (py ''id'') (full_rows scenario) []) (py ''uid'')
          [(py ''name'', py ''dept'')] row) \<longleftrightarrow>
            strip (dict_get row (py ''uid'') []) \<noteq> [] \<and>
            (\<exists>r\<in>set (full_rows scenario). strip (dict_get r (py ''id'') []) = strip (dict_get row (py ''uid'') []))" for row
    by simp
  from inst have cnt: "int (length (filter (\<lambda>row. strip (dict_get row (py ''uid'') []) \<noteq> [] \<and>
                  (\<exists>r\<in>set (full_rows scenario). strip (dict_get r (py ''id'') []) = strip (dict_get row (py ''uid'') [])))
                (masked_rows scenario))) = 1"
    by simp
  have a: "snd (match_row (build_lookup (py ''id'') (full_rows scenario) []) (py ''uid'')
          [(py ''name'', py ''dept'')] [(py ''uid'', py ''1''), (py ''dept'', [])])"
    unfolding iff by (simp add: scenario_def dict_get_def) (simp add: py_def)
  have b: "\<not> snd (match_row (build_lookup (py ''id'') (full_rows scenario) []) (py ''uid'')
          [(py ''name'', py ''dept'')] [(py ''uid'', py ''3''), (py ''dept'', [])])"
    unfolding iff by (simp add: scenario_def dict_get_def) (simp add: py_def)
  from a b cnt scenario_run show ?thesis by simp
qed

text \<open>
  Claim C3. When several reference rows have the same trimmed key, the one that comes last
  in the reference list is the entry of the lookup table, and every target row with that key
  is completed from it: each planned column that no later plan entry overwrites holds that
  row's value of the source column.
\<close>

theorem later_duplicate_wins:
  assumes "run self = Inr res"
    and "fk = strip (full_key_var self)" and "mk = strip (masked_key_var self)"
    and "full_rows self = xs @ r # ys"
    and "strip (dict_get r fk []) = k" and "k \<noteq> []"
    and "\<forall>y\<in>set ys. strip (dict_get y fk []) \<noteq> k"
  shows "map_of (build_lookup fk (full_rows self) []) k = Some r \<and>
         (\<forall>i<length (masked_rows self).
            strip (dict_get (masked_rows self ! i) mk []) = k \<longrightarrow>
              result_rows res ! i = write_columns (col_plan res) (Some r) (masked_rows self ! i) \<and>
              (\<forall>p1 s w p2. col_plan res = p1 @ (s, w) # p2 \<and> w \<notin> snd ` set p2 \<longrightarrow>
                 map_of (result_rows res ! i) w = Some (dict_get r s [])))"
proof -
  have lk: "map_of (build_lookup fk (full_rows self) []) k = Some r"
    unfolding assms(4) using assms(5,6,7) by (rule build_lookup_last)
  have "dict_get r fk [] \<noteq> []" using assms(5,6) strip_Nil by force
  then have "r \<noteq> []" by (rule dict_get_nonempty)
  then have sv: "src_value (Some r) s = dict_get r s []" for s
    by (simp add: src_value_def truthy_def)
  have row: "result_rows res ! i = write_columns (col_plan res) (Some r) (masked_rows self ! i)"
    if "i < length (masked_rows self)" "strip (dict_get (masked_rows self ! i) mk []) = k" for i
    using that lk by (simp add: run_result(3) [OF assms(1)] match_row_fst assms(2,3))
  have "map_of (result_rows res ! i) w = Some (dict_get r s [])"
    if "i < length (masked_rows self)" "strip (dict_get (masked_rows self ! i) mk []) = k"
      "col_plan res = p1 @ (s, w) # p2" "w \<notin> snd ` set p2" for i p1 s w p2
    using write_columns_last_wins [OF that(4), of p1 s "Some r" "masked_rows self ! i"]
    by (simp add: row [OF that(1,2)] that(3) sv)
  with lk row show ?thesis by blast
qed

theorem later_duplicate_wins_witness:
  "run scenario_dup =
     Inr \<lparr>result_headers = [py ''uid'', py ''dept''], col_plan = [(py ''name'', py ''dept'')],
          result_rows = [[(py ''uid'', py ''1''), (py ''dept'', py ''Carol'')],
                         [(py ''uid'', py ''3''), (py ''dept'', [])]],
          matched_count = 1, total = 2, unmatched = 1\<rparr> \<and>
   full_rows scenario_dup =
     [[(py ''id'', py ''1''), (py ''name'', py ''Alice'')]] @
     [(py ''id'', py ''1''), (py ''name'', py ''Carol'')] #
     [[(py ''id'', py ''2''), (py ''name'', py ''Bob'')]] \<and>
   map_of (build_lookup (py ''id'') (full_rows scenario_dup) []) (py ''1'') =
     Some [(py ''id'', py ''1''), (py ''name'', py ''Carol'')]"
proof -
  have fk: "py ''id'' = strip (full_key_var scenario_dup)"
    and mk: "py ''uid'' = strip (masked_key_var scenario_dup)"
    by (simp_all add: scenario_dup_def scenario_def)
  have rows: "full_rows scenario_dup =
     [[(py ''id'', py ''1''), (py ''name'', py ''Alice'')]] @
     [(py ''id'', py ''1''), (py ''name'', py ''Carol'')] #
     [[(py ''id'', py ''2''), (py ''name'', py ''Bob'')]]"
    by (simp add: scenario_dup_def)
  have key: "strip (dict_get [(py ''id'', py ''1''), (py ''name'', py ''Carol'')] (py ''id'') []) = py ''1''"
    by (simp add: dict_get_def)
  have ne: "py ''1'' \<noteq> []" by (simp add: py_def)
  have later: "\<forall>y\<in>set [[(py ''id'', py ''2''), (py ''name'', py ''Bob'')]].
      strip (dict_get y (py ''id'') []) \<noteq> py ''1''"
    by (simp add: dict_get_def) (simp add: py_def)
  note inst = later_duplicate_wins [OF scenario_dup_run fk mk rows key ne later]
  from inst have "map_of (build_lookup (py ''id'') (full_rows scenario_dup) []) (py ''1'') =
     Some [(py ''id'', py ''1''), (py ''name'', py ''Carol'')]"
    by (rule conjunct1)
  with scenario_dup_run rows show ?thesis by (intro conjI)
qed

text \<open>
  Claim C4. An output row is its target row with the plan's writes applied in plan order.
  Column by column: a column that is the write column of some plan entry holds the value of
  the last such entry, which is the matched reference row's value of the source column, or
  the empty string when the row is unmatched or the reference row lacks that column; every
  other column is as in the target row. Two entries with the same write column raise no
  error, and the later one wins.
\<close>

theorem output_row_columns:
  assumes "run self = Inr res"
    and "fk = strip (full_key_var self)" and "mk = strip (masked_key_var self)"
    and "i < length (masked_rows self)" and "row = masked_rows self ! i"
    and "src = map_of (build_lookup fk (full_rows self) []) (strip (dict_get row mk []))"
  shows "result_rows res ! i = write_columns (col_plan res) src row \<and>
         (\<forall>c. map_of (result_rows res ! i) c =
            (case find (\<lambda>p. snd p = c) (rev (col_plan res)) of
               None \<Rightarrow> map_of row c
             | Some p \<Rightarrow> Some (src_value src (fst p)))) \<and>
         (\<forall>p1 s w p2. col_plan res = p1 @ (s, w) # p2 \<and> w \<notin> snd ` set p2 \<longrightarrow>
            map_of (result_rows res ! i) w = Some (src_value src s)) \<and>
         (\<forall>s. src_value src s =
            (case src of None \<Rightarrow> []
             | Some d \<Rightarrow> (case map_of d s of None \<Rightarrow> [] | Some v \<Rightarrow> v))) \<and>
         (snd (match_row (build_lookup fk (full_rows self) []) mk (col_plan res) row) \<longleftrightarrow> src \<noteq> None)"
proof -
  have row: "result_rows res ! i = write_columns (col_plan res) src row"
    using assms(4) by (simp add: run_result(3) [OF assms(1)] match_row_fst assms(2,3,5,6))
  have cols: "map_of (result_rows res ! i) c =
            (case find (\<lambda>p. snd p = c) (rev (col_plan res)) of
               None \<Rightarrow> map_of row c
             | Some p \<Rightarrow> Some (src_value src (fst p)))" for c
    unfolding row by (rule map_of_write_columns)
  have lww: "map_of (result_rows res ! i) w = Some (src_value src s)"
    if "col_plan res = p1 @ (s, w) # p2" "w \<notin> snd ` set p2" for p1 s w p2
    unfolding row that(1) using that(2) by (rule write_columns_last_wins)
  have sv: "src_value src s =
            (case src of None \<Rightarrow> []
             | Some d \<Rightarrow> (case map_of d s of None \<Rightarrow> [] | Some v \<Rightarrow> v))" for s
    by (simp add: src_value_eq dict_get_def split: option.splits)
  have m: "snd (match_row (build_lookup fk (full_rows self) []) mk (col_plan res) row) \<longleftrightarrow> src \<noteq> None"
    by (simp add: match_row_snd assms(6) build_lookup_truthy_Some)
  from row cols lww sv m show ?thesis by blast
qed

theorem output_row_columns_witness:
  "run scenario_same_col =
     Inr \<lparr>result_headers = [py ''uid'', py ''dept''],
          col_plan = [(py ''name'', py ''dept''), (py ''id'', py ''dept'')],
          result_rows = [[(py ''uid'', py ''1''), (py ''dept'', py ''1'')],
                         [(py ''uid'', py ''3''), (py ''dept'', [])]],
          matched_count = 1, total = 2, unmatched = 1\<rparr> \<and>
   0 < length (masked_rows scenario_same_col) \<and>
   [(py ''uid'', py ''1''), (py ''dept'', py ''1'')] =
     write_columns [(py ''name'', py ''dept''), (py ''id'', py ''dept'')]
       (map_of (build_lookup (py ''id'') (full_rows scenario_same_col) [])
          (strip (dict_get (masked_rows scenario_same_col ! 0) (py ''uid'') [])))
       (masked_rows scenario_same_col ! 0)"
proof -
  have fk: "py ''id'' = strip (full_key_var scenario_same_col)"
    and mk: "py ''uid'' = strip (masked_key_var scenario_same_col)"
    and len: "0 < length (masked_rows scenario_same_col)"
    by (simp_all add: scenario_same_col_def scenario_def)
  note inst = output_row_columns [OF scenario_same_col_run fk mk len refl refl]
  from inst have "result_rows \<lparr>result_headers = [py ''uid'', py ''dept''],
          col_plan = [(py ''name'', py ''dept''), (py ''id'', py ''dept'')],
          result_rows = [[(py ''uid'', py ''1''), (py ''dept'', py ''1'')],
                         [(py ''uid'', py ''3''), (py ''dept'', [])]],
          matched_count = 1, total = 2, unmatched = 1\<rparr> ! 0 =
     write_columns (col_plan \<lparr>result_headers = [py ''uid'', py ''dept''],
          col_plan = [(py ''name'', py ''dept''), (py ''id'', py ''dept'')],
          result_rows = [[(py ''uid'', py ''1''), (py ''dept'', py ''1'')],
                         [(py ''uid'', py ''3''), (py ''dept'', [])]],
          matched_count = 1, total = 2, unmatched = 1\<rparr>)
       (map_of (build_lookup (py ''id'') (full_rows scenario_same_col) [])
          (strip (dict_get (masked_rows scenario_same_col ! 0) (py ''uid'') [])))
       (masked_rows scenario_same_col ! 0)"
    by (rule conjunct1)
  then have "[(py ''uid'', py ''1''), (py ''dept'', py ''1'')] =
     write_columns [(py ''name'', py ''dept''), (py ''id'', py ''dept'')]
       (map_of (build_lookup (py ''id'') (full_rows scenario_same_col) [])
          (strip (dict_get (masked_rows scenario_same_col ! 0) (py ''uid'') [])))
       (masked_rows scenario_same_col ! 0)"
    by (simp only: run_result.simps nth_Cons_0)
  with scenario_same_col_run len show ?thesis by (intro conjI)
qed

text \<open>
  Claim C10. When no reference row has the selected key column, the run still succeeds: the
  lookup table is empty, nothing is matched, every planned write column of every output row
  is the empty string, and all other columns of the target rows are kept.
\<close>

theorem absent_key_column:
  assumes "full_rows self \<noteq> []" and "masked_rows self \<noteq> []"
    and "strip (full_key_var self) \<noteq> []" and "strip (masked_key_var self) \<noteq> []"
    and "filter active (mapping_rows self) \<noteq> []"
    and "\<forall>r\<in>set (full_rows self). map_of r (strip (full_key_var self)) = None"
  shows "\<exists>res. run self = Inr res \<and>
           build_lookup (strip (full_key_var self)) (full_rows self) [] = [] \<and>
           matched_count res = 0 \<and> unmatched res = int (length (masked_rows self)) \<and>
           length (result_rows res) = length (masked_rows self) \<and>
           (\<forall>i<length (masked_rows self). \<forall>c.
              map_of (result_rows res ! i) c =
                (if c \<in> snd ` set (col_plan res) then Some [] else map_of (masked_rows self ! i) c))"
proof -
  from run_Inr [OF assms(1-5)] obtain res where res: "run self = Inr res"
    by (simp add: Let_def)
  have lk: "build_lookup (strip (full_key_var self)) (full_rows self) [] = []"
    using assms(6) by (rule build_lookup_no_key)
  have nm: "\<not> snd (match_row [] mk plan row)" for mk plan row
    by (simp add: match_row_snd truthy_def)
  have mc: "matched_count res = 0"
    by (simp add: run_result(4) [OF res] lk nm)
  have um: "unmatched res = int (length (masked_rows self))"
    by (simp add: run_result(5,6) [OF res] mc)
  have len: "length (result_rows res) = length (masked_rows self)"
    by (simp add: run_result(3) [OF res])
  have "map_of (result_rows res ! i) c =
          (if c \<in> snd ` set (col_plan res) then Some [] else map_of (masked_rows self ! i) c)"
    if "i < length (masked_rows self)" for i c
  proof -
    have r: "result_rows res ! i = write_columns (col_plan res) None (masked_rows self ! i)"
      using that by (simp add: run_result(3) [OF res] lk match_row_fst)
    have "src_value None s = []" for s by (simp add: src_value_def truthy_def)
    then show ?thesis
      using write_columns_written [of c "col_plan res" None "masked_rows self ! i"]
      by (auto simp: r write_columns_frame)
  qed
  with res lk mc um len show ?thesis by blast
qed


theorem absent_key_column_witness:
  "full_rows scenario_no_key =
     [[(py ''id'', py ''1''), (py ''name'', py ''Alice'')],
      [(py ''id'', py ''2''), (py ''name'', py ''Bob'')]] \<and>
   strip (full_key_var scenario_no_key) = py ''code'' \<and>
   map_of [(py ''id'', py ''1''), (py ''name'', py ''Alice'')] (py ''code'') = None \<and>
   map_of [(py ''id'', py ''2''), (py ''name'', py ''Bob'')] (py ''code'') = None \<and>
   run scenario_no_key =
     Inr \<lparr>result_headers = [py ''uid'', py ''dept''], col_plan = [(py ''name'', py ''dept'')],
          result_rows = [[(py ''uid'', py ''1''), (py ''dept'', [])],
                         [(py ''uid'', py ''3''), (py ''dept'', [])]],
          matched_count = 0, total = 2, unmatched = 2\<rparr> \<and>
   build_lookup (py ''code'') (full_rows scenario_no_key) [] = []"
proof -
  have rows: "full_rows scenario_no_key =
     [[(py ''id'', py ''1''), (py ''name'', py ''Alice'')],
      [(py ''id'', py ''2''), (py ''name'', py ''Bob'')]]"
    by (simp add: scenario_no_key_def scenario_def)
  have key: "strip (full_key_var scenario_no_key) = py ''code''"
    by (simp add: scenario_no_key_def strip_def isspace_def py_def)
  have none: "map_of [(py ''id'', py ''1''), (py ''name'', py ''Alice'')] (py ''code'') = None"
    "map_of [(py ''id'', py ''2''), (py ''name'', py ''Bob'')] (py ''code'') = None"
    by (simp_all add: py_def)
  have pre: "full_rows scenario_no_key \<noteq> []" "masked_rows scenario_no_key \<noteq> []"
    "strip (full_key_var scenario_no_key) \<noteq> []" "strip (masked_key_var scenario_no_key) \<noteq> []"
    "filter active (mapping_rows scenario_no_key) \<noteq> []"
    by (simp_all add: key rows) (simp_all add: scenario_no_key_def scenario_def py_def strip_def isspace_def)
  have absent: "\<forall>r\<in>set (full_rows scenario_no_key). map_of r (strip (full_key_var scenario_no_key)) = None"
    by (simp add: key rows) (simp add: py_def)
  from absent_key_column [OF pre absent]
  have "build_lookup (strip (full_key_var scenario_no_key)) (full_rows scenario_no_key) [] = []"
    by blast
  then have "build_lookup (py ''code'') (full_rows scenario_no_key) [] = []"
    by (simp only: key)
  with rows key none scenario_no_key_run show ?thesis by (intro conjI)
qed

text \<open>
  Claim C6. Every column of a target row that is not a write column of the plan has the same
  value in the output row. On the store model, where the loaded rows are the objects at
  \<open>full_refs\<close> and \<open>masked_refs\<close>: the row loop returns the rows of \<^verbatim>\<open>_run\<close> as new objects,
  and every object that existed before the run, so every loaded reference and target row,
  has its contents unchanged afterwards.
\<close>

theorem run_leaves_inputs_unchanged:
  assumes "run self = Inr res"
    and "fk = strip (full_key_var self)" and "mk = strip (masked_key_var self)"
    and "full_rows self = map (cells s) full_refs"
    and "masked_rows self = map (cells s) masked_refs"
    and "\<forall>a\<in>set full_refs \<union> set masked_refs. a < next_ref s"
    and "result_loop_refs (build_lookup_refs s fk full_refs []) mk (col_plan res) masked_refs [] 0 s =
           ((out_refs, n), s')"
  shows "(\<forall>i<length (masked_rows self). \<forall>c. c \<notin> snd ` set (col_plan res) \<longrightarrow>
            map_of (result_rows res ! i) c = map_of (masked_rows self ! i) c) \<and>
         map (cells s') out_refs = result_rows res \<and> n = matched_count res \<and>
         (\<forall>a<next_ref s. cells s' a = cells s a) \<and>
         map (cells s') full_refs = full_rows self \<and>
         map (cells s') masked_refs = masked_rows self \<and>
         (\<forall>a\<in>set out_refs. next_ref s \<le> a)"
proof -
  let ?lk = "build_lookup_refs s fk full_refs []"
  have lkp: "map (\<lambda>(k, a). (k, cells s a)) ?lk = build_lookup fk (full_rows self) []"
    using build_lookup_refs_deref [of s fk full_refs "[]"] by (simp add: assms(4))
  have "snd ` set ?lk \<subseteq> set full_refs"
    using build_lookup_refs_range [of s fk full_refs "[]"] by simp
  with assms(6) have pre: "\<forall>a\<in>snd ` set ?lk \<union> set masked_refs. a < next_ref s"
    by auto
  from result_loop_refs_sound [OF assms(7) pre] obtain new where snd:
    "\<forall>a<next_ref s. cells s' a = cells s a"
    "out_refs = [] @ new"
    "\<forall>a\<in>set new. next_ref s \<le> a \<and> a < next_ref s'"
    "map (cells s') new =
       map (\<lambda>row. fst (match_row (build_lookup fk (full_rows self) []) mk (col_plan res) row))
         (masked_rows self)"
    "n = 0 + int (length (filter
           (\<lambda>row. snd (match_row (build_lookup fk (full_rows self) []) mk (col_plan res) row))
           (masked_rows self)))"
    unfolding lkp assms(5) [symmetric] by blast
  have rows: "map (cells s') out_refs = result_rows res"
    using snd(2,4) by (simp add: run_result(3) [OF assms(1)] assms(2,3))
  have cnt: "n = matched_count res"
    using snd(5) by (simp add: run_result(4) [OF assms(1)] assms(2,3))
  have full: "map (cells s') full_refs = full_rows self"
    using snd(1) assms(6) by (simp add: assms(4))
  have masked: "map (cells s') masked_refs = masked_rows self"
    using snd(1) assms(6) by (simp add: assms(5))
  have fresh: "\<forall>a\<in>set out_refs. next_ref s \<le> a"
    using snd(2,3) by simp
  have cols: "map_of (result_rows res ! i) c = map_of (masked_rows self ! i) c"
    if "i < length (masked_rows self)" "c \<notin> snd ` set (col_plan res)" for i c
    using that by (simp add: run_result(3) [OF assms(1)] match_row_fst write_columns_frame)
  from cols rows cnt snd(1) full masked fresh show ?thesis by blast
qed

theorem run_leaves_inputs_unchanged_witness:
  "full_rows scenario = map (cells scenario_store) [0, 1] \<and>
   masked_rows scenario = map (cells scenario_store) [2, 3] \<and>
   next_ref scenario_store = 4 \<and>
   fst (fst scenario_store_run) = [4, 5] \<and>
   map (cells (snd scenario_store_run)) [0, 1] = full_rows scenario \<and>
   map (cells (snd scenario_store_run)) [2, 3] = masked_rows scenario \<and>
   map (cells (snd scenario_store_run)) (fst (fst scenario_store_run)) =
     [[(py ''uid'', py ''1''), (py ''dept'', py ''Alice'')],
      [(py ''uid'', py ''3''), (py ''dept'', [])]] \<and>
   map_of [(py ''uid'', py ''1''), (py ''dept'', py ''Alice'')] (py ''uid'') =
     map_of (masked_rows scenario ! 0) (py ''uid'')"
proof -
  let ?res = "\<lparr>result_headers = [py ''uid'', py ''dept''], col_plan = [(py ''name'', py ''dept'')],
          result_rows = [[(py ''uid'', py ''1''), (py ''dept'', py ''Alice'')],
                         [(py ''uid'', py ''3''), (py ''dept'', [])]],
          matched_count = 1, total = 2, unmatched = 1\<rparr>"
  have fk: "py ''id'' = strip (full_key_var scenario)" and mk: "py ''uid'' = strip (masked_key_var scenario)"
    by (simp_all add: scenario_def)
  have full: "full_rows scenario = map (cells scenario_store) [0, 1]"
    and masked: "masked_rows scenario = map (cells scenario_store) [2, 3]"
    and nxt: "next_ref scenario_store = 4"
    by (simp_all add: scenario_def scenario_store_def)
  have alloc: "\<forall>a\<in>set [0, 1] \<union> set [2, 3]. a < next_ref scenario_store"
    by (simp add: nxt)
  have loop: "result_loop_refs (build_lookup_refs scenario_store (py ''id'') [0, 1] []) (py ''uid'')
       (col_plan ?res) [2, 3] [] 0 scenario_store =
     ((fst (fst scenario_store_run), snd (fst scenario_store_run)), snd scenario_store_run)"
    by (simp add: scenario_store_run_def)
  note inst = run_leaves_inputs_unchanged [OF scenario_run fk mk full masked alloc loop]
  from inst have out: "map (cells (snd scenario_store_run)) (fst (fst scenario_store_run)) =
     [[(py ''uid'', py ''1''), (py ''dept'', py ''Alice'')],
      [(py ''uid'', py ''3''), (py ''dept'', [])]]"
    by simp
  from inst have keep_full: "map (cells (snd scenario_store_run)) [0, 1] = full_rows scenario"
    by blast
  from inst have keep_masked: "map (cells (snd scenario_store_run)) [2, 3] = masked_rows scenario"
    by blast
  from inst have "\<forall>i<length (masked_rows scenario). \<forall>c. c \<notin> snd ` set (col_plan ?res) \<longrightarrow>
            map_of (result_rows ?res ! i) c = map_of (masked_rows scenario ! i) c"
    by blast
  then have "py ''uid'' \<notin> snd ` set (col_plan ?res) \<longrightarrow>
            map_of (result_rows ?res ! 0) (py ''uid'') = map_of (masked_rows scenario ! 0) (py ''uid'')"
    by (simp add: scenario_def)
  moreover have "py ''uid'' \<notin> snd ` set (col_plan ?res)" by (simp add: py_def)
  ultimately have col: "map_of [(py ''uid'', py ''1''), (py ''dept'', py ''Alice'')] (py ''uid'') =
     map_of (masked_rows scenario ! 0) (py ''uid'')"
    by simp
  have refs: "fst (fst scenario_store_run) = [4, 5]"
    using scenario_store_run_value by simp
  from full masked nxt refs keep_full keep_masked out col show ?thesis by (intro conjI)
qed

section \<open>Claims about the join planner\<close>

text \<open>
  Claim C5. For a mapping row in append mode (the target is the new-column entry, or the mode
  is \<open>append\<close>) whose source column name already occurs among the current output headers,
  the write column is the name with the suffix and a counter: the counter starts at 1 and is
  the first one whose name does not occur among the headers. The resolved name is not among
  the headers, it is appended at the end of them, and the final header list is the original
  one followed by the appended columns in the order of the mapping rows.
\<close>

theorem append_collision_suffix:
  assumes "full_var r \<noteq> []" and "masked_var r = NEW_COLUMN \<or> mode_var r = py ''append''"
    and "full_var r \<in> set hs" and "w = unique_name (full_var r) hs (full_var r) 1"
  shows "(\<exists>n\<ge>1. w = suffixed (full_var r) n \<and>
            (\<forall>m. 1 \<le> m \<and> m < n \<longrightarrow> suffixed (full_var r) m \<in> set hs)) \<and>
         w \<notin> set hs \<and>
         plan_columns (r # rs) hs plan = plan_columns rs (hs @ [w]) (plan @ [(full_var r, w)]) \<and>
         (\<exists>new. snd (plan_columns (r # rs) hs plan) = plan @ (full_var r, w) # new \<and>
            map fst new = map full_var (filter (\<lambda>r. full_var r \<noteq> []) rs) \<and>
            fst (plan_columns (r # rs) hs plan) =
              hs @ w # map (\<lambda>(r, p). snd p)
                (filter (\<lambda>(r, p). masked_var r = NEW_COLUMN \<or> mode_var r = py ''append'')
                   (zip (filter (\<lambda>r. full_var r \<noteq> []) rs) new))) \<and>
         (distinct hs \<longrightarrow> distinct (fst (plan_columns (r # rs) hs plan)))"
proof -
  have least: "\<exists>n\<ge>1. w = suffixed (full_var r) n \<and>
            (\<forall>m. 1 \<le> m \<and> m < n \<longrightarrow> suffixed (full_var r) m \<in> set hs)"
    unfolding assms(4) using assms(3) by (rule unique_name_least)
  have fresh: "w \<notin> set hs"
    unfolding assms(4) by (rule unique_name_fresh)
  have step: "plan_columns (r # rs) hs plan = plan_columns rs (hs @ [w]) (plan @ [(full_var r, w)])"
    unfolding assms(4) using assms(1,2) by (rule plan_columns_append)
  from plan_columns_shape [of rs "hs @ [w]" "plan @ [(full_var r, w)]"] obtain new where new:
    "snd (plan_columns rs (hs @ [w]) (plan @ [(full_var r, w)])) = (plan @ [(full_var r, w)]) @ new"
    "map fst new = map full_var (filter (\<lambda>r. full_var r \<noteq> []) rs)"
    "fst (plan_columns rs (hs @ [w]) (plan @ [(full_var r, w)])) =
       (hs @ [w]) @ map (\<lambda>(r, p). snd p)
         (filter (\<lambda>(r, p). masked_var r = NEW_COLUMN \<or> mode_var r = py ''append'')
            (zip (filter (\<lambda>r. full_var r \<noteq> []) rs) new))"
    by blast
  have shape: "\<exists>new. snd (plan_columns (r # rs) hs plan) = plan @ (full_var r, w) # new \<and>
            map fst new = map full_var (filter (\<lambda>r. full_var r \<noteq> []) rs) \<and>
            fst (plan_columns (r # rs) hs plan) =
              hs @ w # map (\<lambda>(r, p). snd p)
                (filter (\<lambda>(r, p). masked_var r = NEW_COLUMN \<or> mode_var r = py ''append'')
                   (zip (filter (\<lambda>r. full_var r \<noteq> []) rs) new))"
    unfolding step using new by (intro exI [of _ new]) simp
  have dist: "distinct hs \<longrightarrow> distinct (fst (plan_columns (r # rs) hs plan))"
    using plan_columns_shape [of "r # rs" hs plan] by blast
  from least fresh step shape dist show ?thesis by blast
qed

theorem append_collision_suffix_witness:
  "full_var append_name \<noteq> [] \<and> masked_var append_name = NEW_COLUMN \<and>
   full_var append_name \<in> set [py ''uid'', py ''name''] \<and>
   unique_name (py ''name'') [py ''uid'', py ''name''] (py ''name'') 1 = suffixed (py ''name'') 1 \<and>
   suffixed (py ''name'') 1 = py ''name'' @ [0x5F, 0x8865, 0x5168, 0x31] \<and>
   plan_columns [append_name] [py ''uid'', py ''name''] [] =
     ([py ''uid'', py ''name'', suffixed (py ''name'') 1], [(py ''name'', suffixed (py ''name'') 1)])"
proof -
  have a1: "full_var append_name \<noteq> []" by (simp add: append_name_def py_def)
  have a2: "masked_var append_name = NEW_COLUMN \<or> mode_var append_name = py ''append''"
    by (simp add: append_name_def)
  have a3: "full_var append_name \<in> set [py ''uid'', py ''name'']" by (simp add: append_name_def)
  have "unique_name (py ''name'') [py ''uid'', py ''name''] (py ''name'') 1 =
          unique_name (py ''name'') [py ''uid'', py ''name''] (suffixed (py ''name'') 1) (1 + 1)"
    by (rule unique_name_hit) simp
  also have "\<dots> = suffixed (py ''name'') 1"
    by (rule unique_name_miss) (simp add: suffixed_def py_def fill_suffix_def)
  finally have u: "unique_name (py ''name'') [py ''uid'', py ''name''] (py ''name'') 1 = suffixed (py ''name'') 1" .
  have a4: "suffixed (py ''name'') 1 = unique_name (full_var append_name) [py ''uid'', py ''name''] (full_var append_name) 1"
    by (simp only: append_name_def mapping_row.simps u)
  have s1: "suffixed (py ''name'') 1 = py ''name'' @ [0x5F, 0x8865, 0x5168, 0x31]"
    by (simp add: suffixed_def fill_suffix_def str_nat.simps)
  from append_collision_suffix [OF a1 a2 a3 a4, of "[]" "[]"]
  have "plan_columns [append_name] [py ''uid'', py ''name''] [] =
          plan_columns [] ([py ''uid'', py ''name''] @ [suffixed (py ''name'') 1])
            ([] @ [(full_var append_name, suffixed (py ''name'') 1)])"
    by blast
  then have p: "plan_columns [append_name] [py ''uid'', py ''name''] [] =
     ([py ''uid'', py ''name'', suffixed (py ''name'') 1], [(py ''name'', suffixed (py ''name'') 1)])"
    by (simp add: append_name_def del: One_nat_def)
  have a2': "masked_var append_name = NEW_COLUMN" by (simp add: append_name_def)
  from a1 a2' a3 u s1 p show ?thesis by (intro conjI)
qed

section \<open>The csv module, as \<^verbatim>\<open>write_csv\<close> and \<^verbatim>\<open>_read_csv\<close> use it\<close>

text \<open>
  \<^verbatim>\<open>write_csv\<close> and \<^verbatim>\<open>_read_csv\<close> call \<^verbatim>\<open>csv.DictWriter\<close> and \<^verbatim>\<open>csv.DictReader\<close> with the default
  dialect \<^verbatim>\<open>excel\<close>: delimiter \<^verbatim>\<open>,\<close> (44), quote character \<^verbatim>\<open>"\<close> (34), doubled quotes, line
  terminator CR LF (13, 10), minimal quoting, no escape character, not strict. The model
  follows CPython 3.11 for this dialect. The csv module works on text, the sequence of code
  points that the text layer of a file takes and hands over.
\<close>

subsection \<open>The writer\<close>

text \<open>
  A field is quoted when it contains the delimiter, the quote character or a character of
  the line terminator; inside the quotes every quote character is doubled.
\<close>

definition needs_quotes :: "pystr \<Rightarrow> bool" where
  "needs_quotes field = list_ex (\<lambda>c. c = 44 \<or> c = 34 \<or> c = 13 \<or> c = 10) field"

definition join_append_data :: "pystr \<Rightarrow> pystr" where
  "join_append_data field = concat (map (\<lambda>c. if c = 34 then [34, 34] else [c]) field)"

definition join_append :: "pystr \<Rightarrow> bool \<Rightarrow> pystr" where
  "join_append field quoted =
     (if quoted \<or> needs_quotes field then [34] @ join_append_data field @ [34] else field)"

fun join_fields :: "pystr list \<Rightarrow> pystr" where
  "join_fields [] = []"
| "join_fields [f] = join_append f False"
| "join_fields (f # g # seq) = join_append f False @ [44] @ join_fields (g # seq)"

text \<open>
  \<^verbatim>\<open>writer.writerow\<close>: the joined fields and the line terminator; a record that would be
  written as an empty line although it has a field (one empty field) is written as two
  quote characters.
\<close>

definition writerow :: "pystr list \<Rightarrow> pystr" where
  "writerow seq =
     (let rec = join_fields seq
      in (if seq \<noteq> [] \<and> rec = [] then join_append [] True else rec) @ [13, 10])"

text \<open>\<^verbatim>\<open>dict(zip(keys, values))\<close>, and \<^verbatim>\<open>DictWriter._dict_to_list\<close> with \<^verbatim>\<open>extrasaction="ignore"\<close>
  and the default \<^verbatim>\<open>restval=""\<close>.\<close>

definition dict_of :: "('k \<times> 'v) list \<Rightarrow> ('k \<times> 'v) list" where
  "dict_of kvs = foldl (\<lambda>d (k, v). AList.update k v d) [] kvs"

definition dict_to_list :: "pystr list \<Rightarrow> row \<Rightarrow> pystr list" where
  "dict_to_list fieldnames rowdict = map (\<lambda>key. dict_get rowdict key []) fieldnames"

text \<open>
  \<^verbatim>\<open>DictWriter.writeheader\<close> and \<^verbatim>\<open>DictWriter.writerows\<close>: the strings that they pass to the
  \<^verbatim>\<open>write\<close> method of the file, one for the header and one for each row.
\<close>

definition writeheader :: "pystr list \<Rightarrow> pystr" where
  "writeheader fieldnames =
     writerow (dict_to_list fieldnames (dict_of (zip fieldnames fieldnames)))"

definition writerows :: "pystr list \<Rightarrow> row list \<Rightarrow> pystr list" where
  "writerows fieldnames rowdicts =
     map (\<lambda>rowdict. writerow (dict_to_list fieldnames rowdict)) rowdicts"

subsection \<open>The reader\<close>

text \<open>
  Iterating over a text file opened with \<^verbatim>\<open>newline=""\<close> yields its lines with their line
  ends, where a line ends at LF, at CR LF, or at a CR that no LF follows. \<open>cur\<close> is the
  part of the current line read so far.
\<close>

fun readlines :: "pystr \<Rightarrow> pystr \<Rightarrow> pystr list" where
  "readlines [] cur = (if cur = [] then [] else [cur])"
| "readlines [c] cur = [cur @ [c]]"
| "readlines (c # d # cs) cur =
     (if c = 13 \<and> d = 10 then (cur @ [13, 10]) # readlines cs []
      else if c = 10 \<or> c = 13 then (cur @ [c]) # readlines (d # cs) []
      else readlines (d # cs) (cur @ [c]))"

text \<open>
  The parser of \<^verbatim>\<open>_csv.c\<close>: its states (those that need an escape character left out), the
  field being read, and in \<open>row_fields\<close> the fields of the record read so far. After the characters of a
  line the parser is given the pseudo character \<open>EOL\<close>.
\<close>

datatype parser_state =
  START_RECORD | START_FIELD | IN_FIELD | IN_QUOTED_FIELD | QUOTE_IN_QUOTED_FIELD | EAT_CRNL

record reader =
  state :: parser_state
  field :: pystr
  row_fields :: "pystr list"

datatype pchar = Ch nat | EOL

datatype csv_error = FieldLimit | NewlineInUnquotedField

text \<open>\<^verbatim>\<open>csv.field_size_limit()\<close>, which the program never changes.\<close>

definition field_limit :: nat where
  "field_limit = 131072"

definition parse_reset :: reader where
  "parse_reset = \<lparr>state = START_RECORD, field = [], row_fields = []\<rparr>"

definition parse_save_field :: "reader \<Rightarrow> reader" where
  "parse_save_field self = self\<lparr>row_fields := row_fields self @ [field self], field := []\<rparr>"

definition parse_add_char :: "reader \<Rightarrow> nat \<Rightarrow> csv_error + reader" where
  "parse_add_char self c =
     (if length (field self) \<ge> field_limit then Inl FieldLimit
      else Inr (self\<lparr>field := field self @ [c]\<rparr>))"

definition set_state :: "parser_state \<Rightarrow> csv_error + reader \<Rightarrow> csv_error + reader" where
  "set_state st r = (case r of Inl e \<Rightarrow> Inl e | Inr self \<Rightarrow> Inr (self\<lparr>state := st\<rparr>))"

text \<open>The case \<^verbatim>\<open>START_FIELD\<close> of \<^verbatim>\<open>parse_process_char\<close>, into which \<^verbatim>\<open>START_RECORD\<close> falls through.\<close>

definition start_field :: "reader \<Rightarrow> pchar \<Rightarrow> csv_error + reader" where
  "start_field self c =
     (case c of
        EOL \<Rightarrow> Inr ((parse_save_field self)\<lparr>state := START_RECORD\<rparr>)
      | Ch x \<Rightarrow>
          if x = 10 \<or> x = 13 then Inr ((parse_save_field self)\<lparr>state := EAT_CRNL\<rparr>)
          else if x = 34 then Inr (self\<lparr>state := IN_QUOTED_FIELD\<rparr>)
          else if x = 44 then Inr (parse_save_field self)
          else set_state IN_FIELD (parse_add_char self x))"

definition process_char :: "reader \<Rightarrow> pchar \<Rightarrow> csv_error + reader" where
  "process_char self c =
     (case state self of
        START_RECORD \<Rightarrow>
          (case c of
             EOL \<Rightarrow> Inr self
           | Ch x \<Rightarrow>
               if x = 10 \<or> x = 13 then Inr (self\<lparr>state := EAT_CRNL\<rparr>)
               else start_field (self\<lparr>state := START_FIELD\<rparr>) c)
      | START_FIELD \<Rightarrow> start_field self c
      | IN_FIELD \<Rightarrow>
          (case c of
             EOL \<Rightarrow> Inr ((parse_save_field self)\<lparr>state := START_RECORD\<rparr>)
           | Ch x \<Rightarrow>
               if x = 10 \<or> x = 13 then Inr ((parse_save_field self)\<lparr>state := EAT_CRNL\<rparr>)
               else if x = 44 then Inr ((parse_save_field self)\<lparr>state := START_FIELD\<rparr>)
               else parse_add_char self x)
      | IN_QUOTED_FIELD \<Rightarrow>
          (case c of
             EOL \<Rightarrow> Inr self
           | Ch x \<Rightarrow>
               if x = 34 then Inr (self\<lparr>state := QUOTE_IN_QUOTED_FIELD\<rparr>)
               else parse_add_char self x)
      | QUOTE_IN_QUOTED_FIELD \<Rightarrow>
          (case c of
             EOL \<Rightarrow> Inr ((parse_save_field self)\<lparr>state := START_RECORD\<rparr>)
           | Ch x \<Rightarrow>
               if x = 34 then set_state IN_QUOTED_FIELD (parse_add_char self x)
               else if x = 44 then Inr ((parse_save_field self)\<lparr>state := START_FIELD\<rparr>)
               else if x = 10 \<or> x = 13 then Inr ((parse_save_field self)\<lparr>state := EAT_CRNL\<rparr>)
               else set_state IN_FIELD (parse_add_char self x))
      | EAT_CRNL \<Rightarrow>
          (case c of
             EOL \<Rightarrow> Inr (self\<lparr>state := START_RECORD\<rparr>)
           | Ch x \<Rightarrow> if x = 10 \<or> x = 13 then Inr self else Inl NewlineInUnquotedField))"

fun feed_chars :: "reader \<Rightarrow> pystr \<Rightarrow> csv_error + reader" where
  "feed_chars self [] = Inr self"
| "feed_chars self (c # cs) =
     (case process_char self (Ch c) of Inl e \<Rightarrow> Inl e | Inr self' \<Rightarrow> feed_chars self' cs)"

definition feed_line :: "reader \<Rightarrow> pystr \<Rightarrow> csv_error + reader" where
  "feed_line self line =
     (case feed_chars self line of Inl e \<Rightarrow> Inl e | Inr self' \<Rightarrow> process_char self' EOL)"

text \<open>
  All records of \<^verbatim>\<open>csv.reader\<close> over the lines of a file (\<^verbatim>\<open>Reader_iternext\<close>, called until
  the lines run out): a record is complete when the parser is back in \<^verbatim>\<open>START_RECORD\<close> after
  a line, and the parser starts the next record reset. When the lines run out inside a
  record, the field read so far ends the last record.
\<close>

fun csv_reader :: "pystr list \<Rightarrow> reader \<Rightarrow> pystr list list \<Rightarrow> csv_error + pystr list list" where
  "csv_reader [] self records =
     (if field self \<noteq> [] \<or> state self = IN_QUOTED_FIELD
      then Inr (records @ [row_fields (parse_save_field self)])
      else Inr records)"
| "csv_reader (line # lines) self records =
     (case feed_line self line of
        Inl e \<Rightarrow> Inl e
      | Inr self' \<Rightarrow>
          if state self' = START_RECORD
          then csv_reader lines parse_reset (records @ [row_fields self'])
          else csv_reader lines self' records)"

text \<open>
  The values of a row that \<^verbatim>\<open>DictReader\<close> yields: a string, \<^verbatim>\<open>None\<close> (the default \<^verbatim>\<open>restval\<close>)
  for a header without a cell, or the list of the cells beyond the headers, which is stored
  under the key \<^verbatim>\<open>None\<close> (the default \<^verbatim>\<open>restkey\<close>).
\<close>

datatype cell = CNone | CStr pystr | CList "pystr list"

type_synonym csv_row = "(pystr option \<times> cell) list"

definition row_dict :: "pystr list \<Rightarrow> pystr list \<Rightarrow> csv_row" where
  "row_dict fieldnames row =
     (let d = dict_of (zip (map Some fieldnames) (map CStr row));
          lf = length fieldnames;
          lr = length row
      in if lf < lr then AList.update None (CList (drop lf row)) d
         else if lf > lr then foldl (\<lambda>d key. AList.update (Some key) CNone d) d (drop lr fieldnames)
         else d)"

text \<open>
  \<^verbatim>\<open>DictReader\<close> over the records: the first record is \<^verbatim>\<open>fieldnames\<close> (\<^verbatim>\<open>None\<close> for a file
  without lines, which \<^verbatim>\<open>reader.fieldnames or []\<close> turns into the empty list), and every later
  record that is not empty becomes a row.
\<close>

definition dict_reader :: "pystr list list \<Rightarrow> pystr list \<times> csv_row list" where
  "dict_reader records =
     (case records of
        [] \<Rightarrow> ([], [])
      | fieldnames # rest \<Rightarrow>
          (fieldnames, map (row_dict fieldnames) (filter (\<lambda>row. row \<noteq> []) rest)))"

text \<open>\<^verbatim>\<open>v or ""\<close>\<close>

definition or_empty :: "cell \<Rightarrow> cell" where
  "or_empty v =
     (case v of CNone \<Rightarrow> CStr [] | CStr s \<Rightarrow> CStr s
      | CList xs \<Rightarrow> if xs = [] then CStr [] else CList xs)"

section \<open>Reading a file\<close>

text \<open>
  What the program sees of the file system. \<open>open_text path enc\<close> is the outcome of opening
  the file with \<^verbatim>\<open>newline=""\<close> and the given encoding and reading it through: the
  \<^verbatim>\<open>OSError\<close> of \<^verbatim>\<open>open\<close> with its message, a \<^verbatim>\<open>UnicodeDecodeError\<close>, or the decoded text.
  \<open>ext_of path\<close> is \<^verbatim>\<open>os.path.splitext(path)[1].lower()\<close>. \<open>openpyxl\<close> says whether the import
  succeeds, and \<open>load_workbook path\<close> is the exception that opening the workbook raises, or
  the rows of the active sheet, each cell \<^verbatim>\<open>None\<close> or the \<^verbatim>\<open>str\<close> of its value.
\<close>

datatype encoding = utf_8_sig | utf_8 | gbk | gb2312 | latin_1

datatype read_outcome = OpenFails pystr | DecodeFails | Text pystr

datatype py_error =
  ValueError_unsupported_format pystr | ValueError_unknown_encoding | OSError pystr
  | UnicodeEncodeError | OtherError pystr

record env =
  ext_of :: "pystr \<Rightarrow> pystr"
  open_text :: "pystr \<Rightarrow> encoding \<Rightarrow> read_outcome"
  openpyxl :: bool
  load_workbook :: "pystr \<Rightarrow> py_error + pystr option list list"

text \<open>
  \<^verbatim>\<open>_read_csv\<close>: the loop over the encodings. Any exception inside the \<^verbatim>\<open>try\<close> (of \<^verbatim>\<open>open\<close>, of
  decoding, of the csv module) makes the loop go on to the next encoding.
\<close>

fun read_csv_with :: "env \<Rightarrow> pystr \<Rightarrow> encoding list \<Rightarrow> py_error + pystr list \<times> csv_row list" where
  "read_csv_with e path [] = Inl ValueError_unknown_encoding"
| "read_csv_with e path (enc # encs) =
     (case open_text e path enc of
        Text f \<Rightarrow>
          (case csv_reader (readlines f []) parse_reset [] of
             Inr records \<Rightarrow>
               (case dict_reader records of
                  (headers, rows) \<Rightarrow>
                    Inr (headers, map (\<lambda>r. map (\<lambda>(k, v). (k, or_empty v)) r) rows))
           | Inl err \<Rightarrow> read_csv_with e path encs)
      | _ \<Rightarrow> read_csv_with e path encs)"

definition read_csv :: "env \<Rightarrow> pystr \<Rightarrow> py_error + pystr list \<times> csv_row list" where
  "read_csv e path = read_csv_with e path [utf_8_sig, utf_8, gbk, gb2312, latin_1]"

text \<open>\<^verbatim>\<open>_read_xlsx\<close>; without openpyxl it returns two empty lists.\<close>

definition cell_str :: "pystr option \<Rightarrow> pystr" where
  "cell_str c = (case c of None \<Rightarrow> [] | Some s \<Rightarrow> s)"

definition xlsx_row :: "pystr list \<Rightarrow> pystr option list \<Rightarrow> csv_row" where
  "xlsx_row headers raw =
     foldl (\<lambda>row (i, h). AList.update (Some h)
              (CStr (cell_str (if i < length raw then raw ! i else None))) row)
       [] (enumerate 0 headers)"

definition read_xlsx :: "env \<Rightarrow> pystr \<Rightarrow> py_error + pystr list \<times> csv_row list" where
  "read_xlsx e path =
     (if \<not> openpyxl e then Inr ([], [])
      else case load_workbook e path of
             Inl err \<Rightarrow> Inl err
           | Inr sheet \<Rightarrow>
               (let headers = (case sheet of [] \<Rightarrow> [] | first # _ \<Rightarrow> map cell_str first)
                in Inr (headers, map (xlsx_row headers) (tl sheet))))"

definition read_file :: "env \<Rightarrow> pystr \<Rightarrow> py_error + pystr list \<times> csv_row list" where
  "read_file e path =
     (let ext = ext_of e path
      in if ext = py ''.csv'' then read_csv e path
         else if ext \<in> set [py ''.xlsx'', py ''.xls'', py ''.xlsm''] then read_xlsx e path
         else Inl (ValueError_unsupported_format ext))"

section \<open>The bytes of a file\<close>

text \<open>
  \<^verbatim>\<open>write_csv\<close> opens its file with \<^verbatim>\<open>encoding="utf-8-sig"\<close>, and \<^verbatim>\<open>_read_csv\<close> tries five
  encodings in turn. A byte is a number below 256. The codecs are those of CPython 3.11
  with \<^verbatim>\<open>errors="strict"\<close>.
\<close>

subsection \<open>UTF-8\<close>

text \<open>
  The encoder refuses the surrogate code points U+D800 to U+DFFF, which a \<^verbatim>\<open>str\<close> can
  hold, with a \<^verbatim>\<open>UnicodeEncodeError\<close> (\<open>None\<close>). A \<^verbatim>\<open>str\<close> holds no code point beyond
  U+10FFFF.
\<close>

definition BOM_UTF8 :: "nat list" where
  "BOM_UTF8 = [0xEF, 0xBB, 0xBF]"

definition scalar :: "nat \<Rightarrow> bool" where
  "scalar c \<longleftrightarrow> c < 0x110000 \<and> \<not> (0xD800 \<le> c \<and> c \<le> 0xDFFF)"

definition utf8_bytes :: "nat \<Rightarrow> nat list" where
  "utf8_bytes c =
     (if c < 0x80 then [c]
      else if c < 0x800 then [0xC0 + c div 0x40, 0x80 + c mod 0x40]
      else if c < 0x10000 then
        [0xE0 + c div 0x1000, 0x80 + c div 0x40 mod 0x40, 0x80 + c mod 0x40]
      else [0xF0 + c div 0x40000, 0x80 + c div 0x1000 mod 0x40, 0x80 + c div 0x40 mod 0x40,
            0x80 + c mod 0x40])"

definition utf8_encode :: "pystr \<Rightarrow> nat list option" where
  "utf8_encode s = (if list_all scalar s then Some (concat (map utf8_bytes s)) else None)"

text \<open>
  The decoder raises a \<^verbatim>\<open>UnicodeDecodeError\<close> (\<open>None\<close>) at a byte that cannot start a
  character, at a character cut short, at a byte that is not a continuation byte where one
  is due, at a character written with more bytes than it needs, at a surrogate and at a
  value beyond U+10FFFF.
\<close>

definition continuation :: "nat \<Rightarrow> bool" where
  "continuation b \<longleftrightarrow> 0x80 \<le> b \<and> b < 0xC0"

fun utf8_decode :: "nat list \<Rightarrow> pystr option" where
  "utf8_decode [] = Some []"
| "utf8_decode (b # bs) =
     (if b < 0x80 then map_option ((#) b) (utf8_decode bs)
      else if b < 0xC2 then None
      else if b < 0xE0 then
        (case bs of
           b1 # rest \<Rightarrow>
             if continuation b1
             then map_option ((#) ((b - 0xC0) * 0x40 + (b1 - 0x80))) (utf8_decode rest)
             else None
         | _ \<Rightarrow> None)
      else if b < 0xF0 then
        (case bs of
           b1 # b2 # rest \<Rightarrow>
             (let c = (b - 0xE0) * 0x1000 + (b1 - 0x80) * 0x40 + (b2 - 0x80)
              in if continuation b1 \<and> continuation b2 \<and> 0x800 \<le> c \<and> scalar c
                 then map_option ((#) c) (utf8_decode rest)
                 else None)
         | _ \<Rightarrow> None)
      else if b < 0xF5 then
        (case bs of
           b1 # b2 # b3 # rest \<Rightarrow>
             (let c = (b - 0xF0) * 0x40000 + (b1 - 0x80) * 0x1000 + (b2 - 0x80) * 0x40 +
                      (b3 - 0x80)
              in if continuation b1 \<and> continuation b2 \<and> continuation b3 \<and> 0x10000 \<le> c \<and>
                    scalar c
                 then map_option ((#) c) (utf8_decode rest)
                 else None)
         | _ \<Rightarrow> None)
      else None)"

subsection \<open>The encodings of \<^verbatim>\<open>_read_csv\<close>\<close>

text \<open>
  The decoders of \<^verbatim>\<open>gbk\<close> and \<^verbatim>\<open>gb2312\<close> take a byte below 128 as the character of that
  number, and any other byte together with the byte after it as one character, which they
  look up in their code table; a pair that the table does not have, and a last byte
  without a partner, raise a \<^verbatim>\<open>UnicodeDecodeError\<close>. The two code tables are parameters.
\<close>

fun dbcs_decode :: "(nat \<times> nat \<Rightarrow> nat option) \<Rightarrow> nat list \<Rightarrow> pystr option" where
  "dbcs_decode table [] = Some []"
| "dbcs_decode table [b] = (if b < 0x80 then Some [b] else None)"
| "dbcs_decode table (b # c # bs) =
     (if b < 0x80 then map_option ((#) b) (dbcs_decode table (c # bs))
      else case table (b, c) of
             None \<Rightarrow> None
           | Some u \<Rightarrow> map_option ((#) u) (dbcs_decode table bs))"

subsection \<open>Files\<close>

text \<open>
  The machine that the program runs on, as far as its files go. \<open>content path\<close> is the
  bytes of the file at the path, if there is one. \<open>read_error path\<close> and \<open>write_error path\<close>
  are the messages of the \<^verbatim>\<open>OSError\<close> that opening the path raises, for reading a file that
  is there and for writing, if it raises one. A file that has been opened can be read
  through and takes every byte written to it.
\<close>

record host =
  content :: "pystr \<Rightarrow> nat list option"
  read_error :: "pystr \<Rightarrow> pystr option"
  write_error :: "pystr \<Rightarrow> pystr option"
  gbk_table :: "nat \<times> nat \<Rightarrow> nat option"
  gb2312_table :: "nat \<times> nat \<Rightarrow> nat option"

text \<open>
  Decoding the bytes of a file: \<^verbatim>\<open>utf-8-sig\<close> skips a byte order mark at the start of the
  file, and \<^verbatim>\<open>latin-1\<close> takes every byte as the character of that number.
\<close>

definition decode :: "host \<Rightarrow> encoding \<Rightarrow> nat list \<Rightarrow> pystr option" where
  "decode m enc bs =
     (case enc of
        utf_8_sig \<Rightarrow> utf8_decode (if take 3 bs = BOM_UTF8 then drop 3 bs else bs)
      | utf_8 \<Rightarrow> utf8_decode bs
      | gbk \<Rightarrow> dbcs_decode (gbk_table m) bs
      | gb2312 \<Rightarrow> dbcs_decode (gb2312_table m) bs
      | latin_1 \<Rightarrow> Some bs)"

text \<open>
  \<^verbatim>\<open>open(path, newline="", encoding=enc)\<close> and reading the file through, and the environment
  in which \<^verbatim>\<open>_read_csv\<close> reads the files of the machine.
\<close>

definition open_read :: "host \<Rightarrow> pystr \<Rightarrow> encoding \<Rightarrow> read_outcome" where
  "open_read m path enc =
     (case content m path of
        None \<Rightarrow> OpenFails (py ''No such file or directory'')
      | Some bs \<Rightarrow>
          (case read_error m path of
             Some msg \<Rightarrow> OpenFails msg
           | None \<Rightarrow> (case decode m enc bs of None \<Rightarrow> DecodeFails | Some f \<Rightarrow> Text f)))"

definition on_host :: "host \<Rightarrow> env \<Rightarrow> env" where
  "on_host m e = e\<lparr>open_text := open_read m\<rparr>"

text \<open>
  The \<^verbatim>\<open>write\<close> calls on a file opened with \<^verbatim>\<open>"w"\<close> and \<^verbatim>\<open>encoding="utf-8-sig"\<close>: every string
  is encoded when it is written, the first one after the byte order mark. A string that
  cannot be encoded raises \<^verbatim>\<open>UnicodeEncodeError\<close>, and the file is left with the bytes of the
  strings written before it. \<open>first\<close> says that nothing has been written yet, and \<open>out\<close> is
  what has been written.
\<close>

fun write_strings :: "bool \<Rightarrow> nat list \<Rightarrow> pystr list \<Rightarrow> py_error option \<times> nat list" where
  "write_strings first out [] = (None, out)"
| "write_strings first out (s # ss) =
     (case utf8_encode s of
        None \<Rightarrow> (Some UnicodeEncodeError, out)
      | Some bs \<Rightarrow> write_strings False (out @ (if first then BOM_UTF8 else []) @ bs) ss)"

text \<open>
  \<^verbatim>\<open>write_csv\<close>: the exception that it raises, or \<open>None\<close> when it returns, and the machine
  afterwards. Opening the file for writing empties it.
\<close>

definition write_csv :: "host \<Rightarrow> pystr \<Rightarrow> pystr list \<Rightarrow> row list \<Rightarrow> py_error option \<times> host" where
  "write_csv m path headers rows =
     (case write_error m path of
        Some msg \<Rightarrow> (Some (OSError msg), m)
      | None \<Rightarrow>
          (case write_strings True [] (writeheader headers # writerows headers rows) of
             (err, bytes) \<Rightarrow> (err, m\<lparr>content := (content m)(path \<mapsto> bytes)\<rparr>)))"

section \<open>Facts about the csv reader\<close>

subsection \<open>Lines\<close>

lemma readlines_plain:
  "c \<noteq> 10 \<Longrightarrow> c \<noteq> 13 \<Longrightarrow> readlines (c # t) cur = readlines t (cur @ [c])"
  by (cases t) simp_all

lemma readlines_lf: "readlines (10 # t) cur = (cur @ [10]) # readlines t []"
  by (cases t) simp_all

lemma readlines_crlf: "readlines (13 # 10 # t) cur = (cur @ [13, 10]) # readlines t []"
  by simp

lemma readlines_cr:
  "t = [] \<or> hd t \<noteq> 10 \<Longrightarrow> readlines (13 # t) cur = (cur @ [13]) # readlines t []"
  by (cases t) auto

lemma readlines_plain_append:
  "\<forall>c\<in>set u. c \<noteq> 10 \<and> c \<noteq> 13 \<Longrightarrow> readlines (u @ t) cur = readlines t (cur @ u)"
  by (induction u arbitrary: cur) (simp_all add: readlines_plain)

subsection \<open>The parser, state by state\<close>

lemma feed_chars_append:
  "feed_chars rd (xs @ ys) =
     (case feed_chars rd xs of Inl e \<Rightarrow> Inl e | Inr rd' \<Rightarrow> feed_chars rd' ys)"
  by (induction xs arbitrary: rd) (auto split: sum.splits)

lemma feed_chars_snoc:
  "feed_chars rd0 cur = Inr rd \<Longrightarrow> process_char rd (Ch c) = Inr rd' \<Longrightarrow>
     feed_chars rd0 (cur @ [c]) = Inr rd'"
  by (simp add: feed_chars_append)

lemma in_quoted_char:
  "state rd = IN_QUOTED_FIELD \<Longrightarrow> c \<noteq> 34 \<Longrightarrow> length (field rd) < field_limit \<Longrightarrow>
     process_char rd (Ch c) = Inr (rd\<lparr>field := field rd @ [c]\<rparr>)"
  by (simp add: process_char_def parse_add_char_def)

lemma in_quoted_quote:
  "state rd = IN_QUOTED_FIELD \<Longrightarrow> process_char rd (Ch 34) = Inr (rd\<lparr>state := QUOTE_IN_QUOTED_FIELD\<rparr>)"
  by (simp add: process_char_def)

lemma in_quoted_eol: "state rd = IN_QUOTED_FIELD \<Longrightarrow> process_char rd EOL = Inr rd"
  by (simp add: process_char_def)

lemma quote_quote:
  "state rd = QUOTE_IN_QUOTED_FIELD \<Longrightarrow> length (field rd) < field_limit \<Longrightarrow>
     process_char rd (Ch 34) = Inr (rd\<lparr>field := field rd @ [34], state := IN_QUOTED_FIELD\<rparr>)"
  by (simp add: process_char_def parse_add_char_def set_state_def)

lemma start_plain:
  "state rd = START_FIELD \<Longrightarrow> c \<noteq> 10 \<Longrightarrow> c \<noteq> 13 \<Longrightarrow> c \<noteq> 34 \<Longrightarrow> c \<noteq> 44 \<Longrightarrow>
     length (field rd) < field_limit \<Longrightarrow>
     process_char rd (Ch c) = Inr (rd\<lparr>field := field rd @ [c], state := IN_FIELD\<rparr>)"
  by (simp add: process_char_def start_field_def parse_add_char_def set_state_def)

lemma start_quote:
  "state rd = START_FIELD \<Longrightarrow> process_char rd (Ch 34) = Inr (rd\<lparr>state := IN_QUOTED_FIELD\<rparr>)"
  by (simp add: process_char_def start_field_def)

lemma in_field_plain:
  "state rd = IN_FIELD \<Longrightarrow> c \<noteq> 10 \<Longrightarrow> c \<noteq> 13 \<Longrightarrow> c \<noteq> 44 \<Longrightarrow>
     length (field rd) < field_limit \<Longrightarrow>
     process_char rd (Ch c) = Inr (rd\<lparr>field := field rd @ [c]\<rparr>)"
  by (simp add: process_char_def parse_add_char_def)

text \<open>The states in which a field can end, and what a delimiter or a line end does there.\<close>

definition field_done :: "reader \<Rightarrow> bool" where
  "field_done rd \<longleftrightarrow>
     state rd = IN_FIELD \<or> state rd = QUOTE_IN_QUOTED_FIELD \<or>
     (state rd = START_FIELD \<and> field rd = [])"

lemma done_delimiter:
  "field_done rd \<Longrightarrow>
     process_char rd (Ch 44) =
       Inr \<lparr>state = START_FIELD, field = [], row_fields = row_fields rd @ [field rd]\<rparr>"
  by (auto simp: field_done_def process_char_def start_field_def parse_save_field_def)

lemma done_cr:
  "field_done rd \<Longrightarrow>
     process_char rd (Ch 13) =
       Inr \<lparr>state = EAT_CRNL, field = [], row_fields = row_fields rd @ [field rd]\<rparr>"
  by (auto simp: field_done_def process_char_def start_field_def parse_save_field_def)

lemma eat_lf: "state rd = EAT_CRNL \<Longrightarrow> process_char rd (Ch 10) = Inr rd"
  by (simp add: process_char_def)

lemma eat_eol: "state rd = EAT_CRNL \<Longrightarrow> process_char rd EOL = Inr (rd\<lparr>state := START_RECORD\<rparr>)"
  by (simp add: process_char_def)

lemma start_record_as_field:
  "c \<noteq> 10 \<Longrightarrow> c \<noteq> 13 \<Longrightarrow> state rd = START_RECORD \<Longrightarrow>
     process_char rd (Ch c) = process_char (rd\<lparr>state := START_FIELD\<rparr>) (Ch c)"
  by (simp add: process_char_def)


subsection \<open>Reading on from the middle of a line\<close>

lemma csv_reader_line:
  assumes "feed_chars rd0 line = Inr rd1" and "process_char rd1 EOL = Inr rd2"
  shows "csv_reader (line # ls) rd0 recs =
           (if state rd2 = START_RECORD then csv_reader ls parse_reset (recs @ [row_fields rd2])
            else csv_reader ls rd2 recs)"
  using assms by (simp add: feed_line_def)

lemma jad_Nil [simp]: "join_append_data [] = []"
  by (simp add: join_append_data_def)

lemma jad_Cons:
  "join_append_data (c # f) = (if c = 34 then [34, 34] else [c]) @ join_append_data f"
  by (simp add: join_append_data_def)

lemma jad_hd: "f \<noteq> [] \<Longrightarrow> hd f \<noteq> 10 \<Longrightarrow> hd (join_append_data f @ t) \<noteq> 10"
  by (cases f) (auto simp: jad_Cons)

lemma quoted_body:
  assumes "feed_chars rd0 cur = Inr rd" and "state rd = IN_QUOTED_FIELD"
    and "length (field rd) + length f \<le> field_limit"
  shows "\<exists>rd0' cur'. feed_chars rd0' cur' = Inr (rd\<lparr>field := field rd @ f\<rparr>) \<and>
           (\<forall>rest recs. csv_reader (readlines (join_append_data f @ 34 # rest) cur) rd0 recs =
                         csv_reader (readlines (34 # rest) cur') rd0' recs)"
  using assms
proof (induction f arbitrary: rd0 cur rd rule: length_induct)
  case (1 f)
  note IH = "1.IH" [rule_format]
  note at = "1.prems"(1) and st = "1.prems"(2) and len = "1.prems"(3)
  show ?case
  proof (cases f)
    case Nil
    with at show ?thesis by (intro exI [of _ rd0] exI [of _ cur]) simp
  next
    case (Cons c f')
    with len have lt: "length (field rd) < field_limit" by simp
    consider (quote) "c = 34" | (lf) "c = 10" | (crlf) f'' where "c = 13" "f' = 10 # f''"
      | (cr) "c = 13" "f' = [] \<or> hd f' \<noteq> 10" | (plain) "c \<noteq> 34" "c \<noteq> 10" "c \<noteq> 13"
      by (cases f') auto
    then show ?thesis
    proof cases
      case quote
      let ?rd1 = "rd\<lparr>state := QUOTE_IN_QUOTED_FIELD\<rparr>"
      let ?rd2 = "rd\<lparr>field := field rd @ [34]\<rparr>"
      have "process_char ?rd1 (Ch 34) = Inr (?rd1\<lparr>field := field ?rd1 @ [34], state := IN_QUOTED_FIELD\<rparr>)"
        using lt by (intro quote_quote) simp_all
      moreover have "?rd1\<lparr>field := field ?rd1 @ [34], state := IN_QUOTED_FIELD\<rparr> = ?rd2"
        using st by auto
      ultimately have p2: "process_char ?rd1 (Ch 34) = Inr ?rd2" by simp
      have at2: "feed_chars rd0 (cur @ [34, 34]) = Inr ?rd2"
        using at in_quoted_quote [OF st] p2 by (simp add: feed_chars_append)
      have "length f' < length f" by (simp add: Cons)
      from IH [OF this at2] st len obtain rd0' cur' where r:
        "feed_chars rd0' cur' = Inr (?rd2\<lparr>field := field ?rd2 @ f'\<rparr>)"
        "\<And>rest recs. csv_reader (readlines (join_append_data f' @ 34 # rest) (cur @ [34, 34])) rd0 recs =
                         csv_reader (readlines (34 # rest) cur') rd0' recs"
        by (auto simp: Cons)
      have "readlines (join_append_data f @ 34 # rest) cur =
              readlines (join_append_data f' @ 34 # rest) (cur @ [34, 34])" for rest
        by (simp add: Cons jad_Cons quote readlines_plain)
      with r show ?thesis
        by (intro exI [of _ rd0'] exI [of _ cur']) (simp add: Cons quote)
    next
      case lf
      let ?rd1 = "rd\<lparr>field := field rd @ [10]\<rparr>"
      have p: "process_char rd (Ch 10) = Inr ?rd1"
        using st lt by (intro in_quoted_char) simp_all
      have fl: "feed_chars rd0 (cur @ [10]) = Inr ?rd1"
        using at p by (rule feed_chars_snoc)
      have eol: "process_char ?rd1 EOL = Inr ?rd1"
        using st by (intro in_quoted_eol) simp
      have line: "csv_reader ((cur @ [10]) # ls) rd0 recs = csv_reader ls ?rd1 recs" for ls recs
        using csv_reader_line [OF fl eol] st by simp
      have at2: "feed_chars ?rd1 [] = Inr ?rd1" by simp
      have "length f' < length f" by (simp add: Cons)
      from IH [OF this at2] st len obtain rd0' cur' where r:
        "feed_chars rd0' cur' = Inr (?rd1\<lparr>field := field ?rd1 @ f'\<rparr>)"
        "\<And>rest recs. csv_reader (readlines (join_append_data f' @ 34 # rest) []) ?rd1 recs =
                         csv_reader (readlines (34 # rest) cur') rd0' recs"
        by (auto simp: Cons)
      have "readlines (join_append_data f @ 34 # rest) cur =
              (cur @ [10]) # readlines (join_append_data f' @ 34 # rest) []" for rest
        by (simp add: Cons jad_Cons lf readlines_lf)
      with r line show ?thesis
        by (intro exI [of _ rd0'] exI [of _ cur']) (simp add: Cons lf)
    next
      case crlf
      let ?rd1 = "rd\<lparr>field := field rd @ [13]\<rparr>"
      let ?rd2 = "rd\<lparr>field := field rd @ [13, 10]\<rparr>"
      from len have lt2: "length (field rd) + 1 < field_limit" by (simp add: Cons crlf)
      have p1: "process_char rd (Ch 13) = Inr ?rd1"
        using st lt by (intro in_quoted_char) simp_all
      have "process_char ?rd1 (Ch 10) = Inr (?rd1\<lparr>field := field ?rd1 @ [10]\<rparr>)"
        using st lt2 by (intro in_quoted_char) simp_all
      then have p2: "process_char ?rd1 (Ch 10) = Inr ?rd2" by simp
      have fl: "feed_chars rd0 (cur @ [13, 10]) = Inr ?rd2"
        using at p1 p2 by (simp add: feed_chars_append)
      have eol: "process_char ?rd2 EOL = Inr ?rd2"
        using st by (intro in_quoted_eol) simp
      have line: "csv_reader ((cur @ [13, 10]) # ls) rd0 recs = csv_reader ls ?rd2 recs" for ls recs
        using csv_reader_line [OF fl eol] st by simp
      have at2: "feed_chars ?rd2 [] = Inr ?rd2" by simp
      have "length f'' < length f" by (simp add: Cons crlf)
      from IH [OF this at2] st len obtain rd0' cur' where r:
        "feed_chars rd0' cur' = Inr (?rd2\<lparr>field := field ?rd2 @ f''\<rparr>)"
        "\<And>rest recs. csv_reader (readlines (join_append_data f'' @ 34 # rest) []) ?rd2 recs =
                         csv_reader (readlines (34 # rest) cur') rd0' recs"
        by (auto simp: Cons crlf)
      have "readlines (join_append_data f @ 34 # rest) cur =
              (cur @ [13, 10]) # readlines (join_append_data f'' @ 34 # rest) []" for rest
        by (simp add: Cons jad_Cons crlf)
      with r line show ?thesis
        by (intro exI [of _ rd0'] exI [of _ cur']) (simp add: Cons crlf)
    next
      case cr
      let ?rd1 = "rd\<lparr>field := field rd @ [13]\<rparr>"
      have p: "process_char rd (Ch 13) = Inr ?rd1"
        using st lt by (intro in_quoted_char) simp_all
      have fl: "feed_chars rd0 (cur @ [13]) = Inr ?rd1"
        using at p by (rule feed_chars_snoc)
      have eol: "process_char ?rd1 EOL = Inr ?rd1"
        using st by (intro in_quoted_eol) simp
      have line: "csv_reader ((cur @ [13]) # ls) rd0 recs = csv_reader ls ?rd1 recs" for ls recs
        using csv_reader_line [OF fl eol] st by simp
      have at2: "feed_chars ?rd1 [] = Inr ?rd1" by simp
      have "length f' < length f" by (simp add: Cons)
      from IH [OF this at2] st len obtain rd0' cur' where r:
        "feed_chars rd0' cur' = Inr (?rd1\<lparr>field := field ?rd1 @ f'\<rparr>)"
        "\<And>rest recs. csv_reader (readlines (join_append_data f' @ 34 # rest) []) ?rd1 recs =
                         csv_reader (readlines (34 # rest) cur') rd0' recs"
        by (auto simp: Cons)
      have nolf: "join_append_data f' @ 34 # rest = [] \<or> hd (join_append_data f' @ 34 # rest) \<noteq> 10" for rest
      proof (cases "f' = []")
        case True
        then show ?thesis by simp
      next
        case False
        with cr(2) have "hd f' \<noteq> 10" by simp
        with False show ?thesis using jad_hd [of f' "34 # rest"] by simp
      qed
      have "readlines (join_append_data f @ 34 # rest) cur =
              (cur @ [13]) # readlines (join_append_data f' @ 34 # rest) []" for rest
        using readlines_cr [OF nolf [of rest], of cur] by (simp add: Cons jad_Cons cr(1))
      with r line show ?thesis
        by (intro exI [of _ rd0'] exI [of _ cur']) (simp add: Cons cr(1))
    next
      case plain
      let ?rd1 = "rd\<lparr>field := field rd @ [c]\<rparr>"
      have p: "process_char rd (Ch c) = Inr ?rd1"
        using st lt plain by (intro in_quoted_char) simp_all
      have at2: "feed_chars rd0 (cur @ [c]) = Inr ?rd1"
        using at p by (rule feed_chars_snoc)
      have "length f' < length f" by (simp add: Cons)
      from IH [OF this at2] st len obtain rd0' cur' where r:
        "feed_chars rd0' cur' = Inr (?rd1\<lparr>field := field ?rd1 @ f'\<rparr>)"
        "\<And>rest recs. csv_reader (readlines (join_append_data f' @ 34 # rest) (cur @ [c])) rd0 recs =
                         csv_reader (readlines (34 # rest) cur') rd0' recs"
        by (auto simp: Cons)
      have "readlines (join_append_data f @ 34 # rest) cur =
              readlines (join_append_data f' @ 34 # rest) (cur @ [c])" for rest
        using plain by (simp add: Cons jad_Cons readlines_plain)
      with r show ?thesis
        by (intro exI [of _ rd0'] exI [of _ cur']) (simp add: Cons)
    qed
  qed
qed

subsection \<open>Reading a written field and a written record\<close>

lemma needs_quotes_iff:
  "needs_quotes f \<longleftrightarrow> (\<exists>c\<in>set f. c = 44 \<or> c = 34 \<or> c = 13 \<or> c = 10)"
  by (simp add: needs_quotes_def list_ex_iff)

lemma plain_in_field:
  "state rd = IN_FIELD \<Longrightarrow> \<not> needs_quotes f \<Longrightarrow> length (field rd) + length f \<le> field_limit \<Longrightarrow>
     feed_chars rd f = Inr (rd\<lparr>field := field rd @ f\<rparr>)"
proof (induction f arbitrary: rd)
  case Nil
  then show ?case by simp
next
  case (Cons c f)
  let ?rd1 = "rd\<lparr>field := field rd @ [c]\<rparr>"
  from Cons.prems have c: "c \<noteq> 10" "c \<noteq> 13" "c \<noteq> 44" and nq: "\<not> needs_quotes f"
    and lt: "length (field rd) < field_limit"
    by (auto simp: needs_quotes_iff)
  have p: "process_char rd (Ch c) = Inr ?rd1"
    using Cons.prems(1) c lt by (rule in_field_plain)
  have "feed_chars ?rd1 f = Inr (?rd1\<lparr>field := field ?rd1 @ f\<rparr>)"
    using Cons.prems by (intro Cons.IH nq) simp_all
  with p show ?case by simp
qed

lemma plain_from_start:
  assumes "state rd = START_FIELD" and "field rd = []" and "\<not> needs_quotes f" and "f \<noteq> []"
    and "length f \<le> field_limit"
  shows "feed_chars rd f = Inr (rd\<lparr>field := f, state := IN_FIELD\<rparr>)"
proof -
  from assms(4) obtain c f' where f: "f = c # f'" by (cases f) auto
  let ?rd1 = "rd\<lparr>field := field rd @ [c], state := IN_FIELD\<rparr>"
  from assms(3) have c: "c \<noteq> 10" "c \<noteq> 13" "c \<noteq> 34" "c \<noteq> 44" and nq: "\<not> needs_quotes f'"
    by (auto simp: needs_quotes_iff f)
  have lt: "length (field rd) < field_limit" using assms(2,5) by (simp add: f)
  have p: "process_char rd (Ch c) = Inr ?rd1"
    using assms(1) c lt by (rule start_plain)
  have "feed_chars ?rd1 f' = Inr (?rd1\<lparr>field := field ?rd1 @ f'\<rparr>)"
    using assms(2,5) by (intro plain_in_field nq) (simp_all add: f)
  with p show ?thesis by (simp add: f assms(2))
qed

lemma field_read:
  assumes "feed_chars rd0 cur = Inr rd" and "state rd = START_FIELD" and "field rd = []"
    and "length f \<le> field_limit"
  shows "\<exists>rd0' cur' rd'. feed_chars rd0' cur' = Inr rd' \<and> field_done rd' \<and> field rd' = f \<and>
           row_fields rd' = row_fields rd \<and>
           (\<forall>rest recs. csv_reader (readlines (join_append f q @ rest) cur) rd0 recs =
                         csv_reader (readlines rest cur') rd0' recs)"
proof (cases "q \<or> needs_quotes f")
  case True
  let ?rd1 = "rd\<lparr>state := IN_QUOTED_FIELD\<rparr>"
  have at1: "feed_chars rd0 (cur @ [34]) = Inr ?rd1"
    using assms(1) start_quote [OF assms(2)] by (rule feed_chars_snoc)
  from quoted_body [OF at1, of f] assms(3,4) obtain rd0' cur' where body:
    "feed_chars rd0' cur' = Inr (?rd1\<lparr>field := f\<rparr>)"
    "\<And>rest recs. csv_reader (readlines (join_append_data f @ 34 # rest) (cur @ [34])) rd0 recs =
                     csv_reader (readlines (34 # rest) cur') rd0' recs"
    by auto
  let ?rd2 = "?rd1\<lparr>field := f\<rparr>"
  let ?rd3 = "?rd2\<lparr>state := QUOTE_IN_QUOTED_FIELD\<rparr>"
  have "process_char ?rd2 (Ch 34) = Inr ?rd3"
    by (rule in_quoted_quote) simp
  with body(1) have at3: "feed_chars rd0' (cur' @ [34]) = Inr ?rd3"
    by (rule feed_chars_snoc)
  have eq: "csv_reader (readlines (join_append f q @ rest) cur) rd0 recs =
            csv_reader (readlines rest (cur' @ [34])) rd0' recs" for rest recs
    using True body(2) [of rest recs] by (simp add: join_append_def readlines_plain)
  show ?thesis
    apply (rule exI [of _ rd0'], rule exI [of _ "cur' @ [34]"], rule exI [of _ ?rd3])
    using at3 eq by (simp add: field_done_def)
next
  case False
  then have ja: "join_append f q = f" and nq: "\<not> needs_quotes f"
    by (simp_all add: join_append_def)
  show ?thesis
  proof (cases "f = []")
    case True
    show ?thesis
      apply (rule exI [of _ rd0], rule exI [of _ cur], rule exI [of _ rd])
      using assms ja by (simp add: True field_done_def)
  next
    case ne: False
    let ?rd1 = "rd\<lparr>field := f, state := IN_FIELD\<rparr>"
    have "feed_chars rd f = Inr ?rd1"
      using assms(2,3) nq ne assms(4) by (rule plain_from_start)
    with assms(1) have at1: "feed_chars rd0 (cur @ f) = Inr ?rd1"
      by (simp add: feed_chars_append)
    have "\<forall>c\<in>set f. c \<noteq> 10 \<and> c \<noteq> 13" using nq by (auto simp: needs_quotes_iff)
    then have rl: "readlines (f @ rest) cur = readlines rest (cur @ f)" for rest
      by (rule readlines_plain_append)
    show ?thesis
      apply (rule exI [of _ rd0])
      apply (rule exI [of _ "cur @ f"], rule exI [of _ ?rd1])
      using at1 rl by (simp add: ja field_done_def)
  qed
qed

lemma record_end:
  assumes "feed_chars rd0 cur = Inr rd" and "field_done rd"
  shows "csv_reader (readlines (13 # 10 # rest) cur) rd0 recs =
           csv_reader (readlines rest []) parse_reset (recs @ [row_fields rd @ [field rd]])"
proof -
  let ?rd1 = "\<lparr>state = EAT_CRNL, field = [], row_fields = row_fields rd @ [field rd]\<rparr>"
  have "process_char ?rd1 (Ch 10) = Inr ?rd1" by (rule eat_lf) simp
  with assms(1) done_cr [OF assms(2)] have fl: "feed_chars rd0 (cur @ [13, 10]) = Inr ?rd1"
    by (simp add: feed_chars_append)
  have eol: "process_char ?rd1 EOL = Inr (?rd1\<lparr>state := START_RECORD\<rparr>)"
    by (rule eat_eol) simp
  show ?thesis
    using csv_reader_line [OF fl eol] by (simp add: readlines_crlf)
qed

lemma field_delimiter:
  assumes "feed_chars rd0 cur = Inr rd" and "field_done rd"
  shows "feed_chars rd0 (cur @ [44]) =
           Inr \<lparr>state = START_FIELD, field = [], row_fields = row_fields rd @ [field rd]\<rparr>"
  using assms(1) done_delimiter [OF assms(2)] by (rule feed_chars_snoc)

lemma fields_read:
  assumes "feed_chars rd0 cur = Inr rd" and "state rd = START_FIELD" and "field rd = []"
    and "\<forall>f\<in>set (f0 # fs). length f \<le> field_limit"
  shows "csv_reader (readlines (join_fields (f0 # fs) @ 13 # 10 # rest) cur) rd0 recs =
           csv_reader (readlines rest []) parse_reset (recs @ [row_fields rd @ f0 # fs])"
  using assms
proof (induction fs arbitrary: f0 rd0 cur rd)
  case Nil
  from field_read [OF Nil.prems(1-3), of f0 False] Nil.prems(4) obtain rd0' cur' rd' where r:
    "feed_chars rd0' cur' = Inr rd'" "field_done rd'" "field rd' = f0"
    "row_fields rd' = row_fields rd"
    "\<And>rest recs. csv_reader (readlines (join_append f0 False @ rest) cur) rd0 recs =
                    csv_reader (readlines rest cur') rd0' recs"
    by auto
  show ?case
    using r(5) [of "13 # 10 # rest" recs] record_end [OF r(1,2), of rest recs]
    by (simp add: r(3,4))
next
  case (Cons g fs)
  from field_read [OF Cons.prems(1-3), of f0 False] Cons.prems(4) obtain rd0' cur' rd' where r:
    "feed_chars rd0' cur' = Inr rd'" "field_done rd'" "field rd' = f0"
    "row_fields rd' = row_fields rd"
    "\<And>rest recs. csv_reader (readlines (join_append f0 False @ rest) cur) rd0 recs =
                    csv_reader (readlines rest cur') rd0' recs"
    by auto
  let ?rd2 = "\<lparr>state = START_FIELD, field = [], row_fields = row_fields rd' @ [field rd']\<rparr>"
  have at2: "feed_chars rd0' (cur' @ [44]) = Inr ?rd2"
    using r(1,2) by (rule field_delimiter)
  have "csv_reader (readlines (join_fields (g # fs) @ 13 # 10 # rest) (cur' @ [44])) rd0' recs =
          csv_reader (readlines rest []) parse_reset (recs @ [row_fields ?rd2 @ g # fs])"
    using Cons.prems(4) by (intro Cons.IH [OF at2]) simp_all
  then show ?case
    using r(5) [of "44 # join_fields (g # fs) @ 13 # 10 # rest" recs]
    by (simp add: r(3,4) readlines_plain)
qed

lemma readlines_first:
  "cur \<noteq> [] \<Longrightarrow> \<exists>l ls. readlines t cur = (cur @ l) # ls"
proof (induction t cur rule: readlines.induct)
  case (1 cur)
  then show ?case by simp
next
  case (2 c cur)
  then show ?case by simp
next
  case (3 c d cs cur)
  show ?case
  proof (cases "c = 10 \<or> c = 13")
    case True
    then show ?thesis by auto
  next
    case False
    with 3 obtain l ls where "readlines (d # cs) (cur @ [c]) = ((cur @ [c]) @ l) # ls"
      by fastforce
    with False show ?thesis by (intro exI [of _ "c # l"] exI [of _ ls]) simp
  qed
qed

lemma start_switch:
  assumes "c \<noteq> 10" and "c \<noteq> 13"
  shows "csv_reader (readlines (c # t) []) parse_reset recs =
           csv_reader (readlines (c # t) []) (parse_reset\<lparr>state := START_FIELD\<rparr>) recs"
proof -
  from readlines_first [of "[c]" t] obtain l ls where "readlines t [c] = (c # l) # ls"
    by auto
  then have rl: "readlines (c # t) [] = (c # l) # ls"
    using assms by (simp add: readlines_plain)
  have "process_char parse_reset (Ch c) = process_char (parse_reset\<lparr>state := START_FIELD\<rparr>) (Ch c)"
    using assms by (intro start_record_as_field) (simp_all add: parse_reset_def)
  then have "feed_line parse_reset (c # l) = feed_line (parse_reset\<lparr>state := START_FIELD\<rparr>) (c # l)"
    by (simp add: feed_line_def)
  then show ?thesis by (simp add: rl)
qed

lemma join_append_Nil_iff: "join_append f False = [] \<longleftrightarrow> f = []"
  by (auto simp: join_append_def needs_quotes_iff)

lemma join_append_hd:
  "join_append f q \<noteq> [] \<Longrightarrow> hd (join_append f q) \<noteq> 10 \<and> hd (join_append f q) \<noteq> 13"
  by (cases f) (auto simp: join_append_def needs_quotes_iff)

lemma join_fields_Nil_iff: "join_fields (f # fs) = [] \<longleftrightarrow> f = [] \<and> fs = []"
  by (cases fs) (simp_all add: join_append_Nil_iff)

lemma join_fields_hd:
  "join_fields (f # fs) \<noteq> [] \<Longrightarrow> hd (join_fields (f # fs)) \<noteq> 10 \<and> hd (join_fields (f # fs)) \<noteq> 13"
proof (cases fs)
  case Nil
  then show "join_fields (f # fs) \<noteq> [] \<Longrightarrow> ?thesis"
    using join_append_hd [of f False] by simp
next
  case (Cons g gs)
  show ?thesis
  proof (cases "join_append f False = []")
    case True
    then show ?thesis by (simp add: Cons)
  next
    case False
    with join_append_hd [of f False] show ?thesis by (simp add: Cons)
  qed
qed

lemma csv_reader_blank_line:
  "csv_reader (readlines (13 # 10 # rest) []) parse_reset recs =
     csv_reader (readlines rest []) parse_reset (recs @ [[]])"
proof -
  have "feed_line parse_reset [13, 10] = Inr parse_reset"
    by (simp add: feed_line_def process_char_def parse_reset_def)
  then show ?thesis by (simp add: parse_reset_def)
qed

lemma start_field_at:
  "feed_chars (parse_reset\<lparr>state := START_FIELD\<rparr>) [] = Inr (parse_reset\<lparr>state := START_FIELD\<rparr>)"
  by simp

lemma writerow_read:
  assumes "\<forall>f\<in>set fs. length f \<le> field_limit"
  shows "csv_reader (readlines (writerow fs @ rest) []) parse_reset recs =
           csv_reader (readlines rest []) parse_reset (recs @ [fs])"
proof (cases fs)
  case Nil
  have "writerow fs @ rest = 13 # 10 # rest" by (simp add: Nil writerow_def)
  then show ?thesis unfolding Nil by (simp only: csv_reader_blank_line)
next
  case (Cons f0 gs)
  let ?start = "parse_reset\<lparr>state := START_FIELD\<rparr>"
  have st: "state ?start = START_FIELD" "field ?start = []" "row_fields ?start = []"
    by (simp_all add: parse_reset_def)
  show ?thesis
  proof (cases "join_fields fs = []")
    case True
    then have fs: "fs = [[]]" by (simp add: Cons join_fields_Nil_iff)
    have shape: "writerow fs @ rest = 34 # 34 # 13 # 10 # rest"
      by (simp add: fs writerow_def join_append_def)
    from field_read [OF start_field_at st(1,2), of "[]" True] obtain rd0' cur' rd' where r:
      "feed_chars rd0' cur' = Inr rd'" "field_done rd'" "field rd' = []"
      "row_fields rd' = row_fields ?start"
      "\<And>rest recs. csv_reader (readlines (join_append [] True @ rest) []) ?start recs =
                      csv_reader (readlines rest cur') rd0' recs"
      by auto
    have a: "csv_reader (readlines (34 # 34 # 13 # 10 # rest) []) ?start recs =
            csv_reader (readlines rest []) parse_reset (recs @ [[[]]])"
      using r(5) [of "13 # 10 # rest" recs] record_end [OF r(1,2), of rest recs]
      by (simp only: r(3,4) st(3) join_append_def append_Nil jad_Nil append_Cons if_True simp_thms)
    have b: "csv_reader (readlines (34 # 34 # 13 # 10 # rest) []) parse_reset recs =
            csv_reader (readlines (34 # 34 # 13 # 10 # rest) []) ?start recs"
      by (rule start_switch) simp_all
    have "csv_reader (readlines (writerow fs @ rest) []) parse_reset recs =
            csv_reader (readlines (34 # 34 # 13 # 10 # rest) []) parse_reset recs"
      by (simp only: shape)
    also note b
    also note a
    finally show ?thesis by (simp only: fs)
  next
    case False
    then have shape: "writerow fs @ rest = join_fields (f0 # gs) @ 13 # 10 # rest"
      by (simp add: writerow_def Cons)
    from False obtain c t where ct: "join_fields (f0 # gs) = c # t"
      by (cases "join_fields (f0 # gs)") (auto simp: Cons)
    with join_fields_hd [of f0 gs] have c: "c \<noteq> 10" "c \<noteq> 13" by auto
    have "csv_reader (readlines (join_fields (f0 # gs) @ 13 # 10 # rest) []) ?start recs =
            csv_reader (readlines rest []) parse_reset (recs @ [row_fields ?start @ f0 # gs])"
      using assms by (intro fields_read [OF start_field_at st(1,2)]) (simp add: Cons)
    moreover have "csv_reader (readlines (join_fields (f0 # gs) @ 13 # 10 # rest) []) parse_reset recs =
            csv_reader (readlines (join_fields (f0 # gs) @ 13 # 10 # rest) []) ?start recs"
      unfolding ct using start_switch [OF c, of "t @ 13 # 10 # rest" recs] by simp
    ultimately show ?thesis using shape by (simp add: st(3) Cons)
  qed
qed

lemma records_read:
  assumes "\<forall>r\<in>set rs. \<forall>f\<in>set r. length f \<le> field_limit"
  shows "csv_reader (readlines (concat (map writerow rs)) []) parse_reset recs = Inr (recs @ rs)"
  using assms
proof (induction rs arbitrary: recs)
  case Nil
  show ?case by (simp add: parse_reset_def)
next
  case (Cons r rs)
  have "csv_reader (readlines (writerow r @ concat (map writerow rs)) []) parse_reset recs =
          csv_reader (readlines (concat (map writerow rs)) []) parse_reset (recs @ [r])"
    using Cons.prems by (intro writerow_read) simp
  also have "\<dots> = Inr ((recs @ [r]) @ rs)"
    using Cons.prems by (intro Cons.IH) simp
  finally show ?case by simp
qed

subsection \<open>Dictionaries built from pairs\<close>

lemma update_fresh: "k \<notin> fst ` set d \<Longrightarrow> AList.update k v d = d @ [(k, v)]"
  by (induction d) auto

lemma foldl_update_distinct:
  "distinct (map fst kvs) \<Longrightarrow> fst ` set d \<inter> fst ` set kvs = {} \<Longrightarrow>
     foldl (\<lambda>d (k, v). AList.update k v d) d kvs = d @ kvs"
proof (induction kvs arbitrary: d)
  case Nil
  show ?case by simp
next
  case (Cons kv kvs)
  obtain k v where kv: "kv = (k, v)" by (cases kv)
  from Cons.prems have fresh: "k \<notin> fst ` set d" by (auto simp: kv)
  have "foldl (\<lambda>d (k, v). AList.update k v d) (d @ [(k, v)]) kvs = (d @ [(k, v)]) @ kvs"
    using Cons.prems by (intro Cons.IH) (auto simp: kv)
  then show ?case by (simp add: kv update_fresh [OF fresh])
qed

lemma dict_of_distinct: "distinct (map fst kvs) \<Longrightarrow> dict_of kvs = kvs"
  using foldl_update_distinct [of kvs "[]"] by (simp add: dict_of_def)

lemma writeheader_list:
  assumes "distinct headers"
  shows "dict_to_list headers (dict_of (zip headers headers)) = headers"
proof -
  have d: "dict_of (zip headers headers) = zip headers headers"
    using assms by (intro dict_of_distinct) simp
  have "map_of (zip headers headers) h = Some h" if "h \<in> set headers" for h
    using that by (induction headers) auto
  then have "map (\<lambda>key. dict_get (zip headers headers) key []) headers = map (\<lambda>key. key) headers"
    by (intro map_cong) (simp_all add: dict_get_def)
  then show ?thesis by (simp add: dict_to_list_def d)
qed

lemma row_dict_full:
  assumes "distinct headers" and "length r = length headers"
  shows "row_dict headers r = zip (map Some headers) (map CStr r)"
proof -
  have "distinct (map fst (zip (map Some headers) (map CStr r)))"
    using assms by (simp add: distinct_map)
  then show ?thesis using assms(2) by (simp add: row_dict_def dict_of_distinct)
qed

subsection \<open>Reading a written file\<close>

lemma read_csv_first:
  assumes "open_text e path utf_8_sig = Text f"
    and "csv_reader (readlines f []) parse_reset [] = Inr (headers # recs)"
  shows "read_csv e path =
           Inr (headers, map (\<lambda>r. map (\<lambda>(k, v). (k, or_empty v)) r)
                           (map (row_dict headers) (filter (\<lambda>row. row \<noteq> []) recs)))"
  using assms by (simp add: read_csv_def dict_reader_def)

subsection \<open>A field beyond the limit\<close>

lemma in_field_overflow:
  "state rd = IN_FIELD \<Longrightarrow> \<forall>c\<in>set u. c \<noteq> 10 \<and> c \<noteq> 13 \<and> c \<noteq> 44 \<Longrightarrow>
     length (field rd) \<le> field_limit \<Longrightarrow> field_limit < length (field rd) + length u \<Longrightarrow>
     feed_chars rd u = Inl FieldLimit"
proof (induction u arbitrary: rd)
  case Nil
  then show ?case by simp
next
  case (Cons c u)
  show ?case
  proof (cases "length (field rd) = field_limit")
    case True
    with Cons.prems(1,2) have "process_char rd (Ch c) = Inl FieldLimit"
      by (simp add: process_char_def parse_add_char_def)
    then show ?thesis by simp
  next
    case False
    with Cons.prems(3) have lt: "length (field rd) < field_limit" by simp
    let ?rd1 = "rd\<lparr>field := field rd @ [c]\<rparr>"
    have p: "process_char rd (Ch c) = Inr ?rd1"
      using Cons.prems(1,2) lt by (intro in_field_plain) simp_all
    have "feed_chars ?rd1 u = Inl FieldLimit"
      using Cons.prems lt by (intro Cons.IH) simp_all
    with p show ?thesis by simp
  qed
qed

lemma long_line_fails:
  assumes "\<forall>c\<in>set u. c \<noteq> 10 \<and> c \<noteq> 13 \<and> c \<noteq> 34 \<and> c \<noteq> 44" and "field_limit < length u"
  shows "csv_reader (readlines (u @ [13, 10]) []) parse_reset [] = Inl FieldLimit"
proof -
  from assms(2) obtain c u' where u: "u = c # u'" by (cases u) auto
  let ?rd1 = "parse_reset\<lparr>field := [c], state := IN_FIELD\<rparr>"
  have c: "c \<noteq> 10" "c \<noteq> 13" "c \<noteq> 34" "c \<noteq> 44" using assms(1) by (simp_all add: u)
  have "process_char (parse_reset\<lparr>state := START_FIELD\<rparr>) (Ch c) =
          Inr (parse_reset\<lparr>state := START_FIELD, field := [c], state := IN_FIELD\<rparr>)"
    using start_plain [of "parse_reset\<lparr>state := START_FIELD\<rparr>" c] c
    by (simp add: parse_reset_def field_limit_def)
  then have p: "process_char parse_reset (Ch c) = Inr ?rd1"
    using start_record_as_field [OF c(1,2), of parse_reset] by (simp add: parse_reset_def)
  have "feed_chars ?rd1 u' = Inl FieldLimit"
    using assms by (intro in_field_overflow) (simp_all add: u field_limit_def)
  with p have "feed_chars parse_reset u = Inl FieldLimit" by (simp add: u)
  then have "feed_line parse_reset (u @ [13, 10]) = Inl FieldLimit"
    by (simp add: feed_line_def feed_chars_append)
  moreover have "readlines (u @ [13, 10]) [] = [u @ [13, 10]]"
    using assms(1) by (subst readlines_plain_append) simp_all
  ultimately show ?thesis by simp
qed

lemma read_csv_with_text_fails:
  "open_text e path enc = Text f \<Longrightarrow> csv_reader (readlines f []) parse_reset [] = Inl err \<Longrightarrow>
     read_csv_with e path (enc # encs) = read_csv_with e path encs"
  by simp

lemma read_csv_with_decode_fails:
  "open_text e path enc = DecodeFails \<Longrightarrow>
     read_csv_with e path (enc # encs) = read_csv_with e path encs"
  by simp

lemma read_csv_with_open_fails:
  "open_text e path enc = OpenFails msg \<Longrightarrow>
     read_csv_with e path (enc # encs) = read_csv_with e path encs"
  by simp

text \<open>The definitions to unfold when a concrete file is read or written.\<close>

lemmas csv_eval = needs_quotes_def join_append_data_def join_append_def writerow_def dict_of_def
  dict_to_list_def writeheader_def writerows_def parse_reset_def parse_save_field_def parse_add_char_def
  set_state_def start_field_def process_char_def feed_line_def field_limit_def row_dict_def
  dict_reader_def or_empty_def read_csv_def dict_get_def Let_def

section \<open>Facts about the bytes of a file\<close>

subsection \<open>UTF-8 read back\<close>

lemma utf8_decode_2:
  "2 \<le> a \<Longrightarrow> a < 32 \<Longrightarrow> b < 64 \<Longrightarrow>
     utf8_decode ((0xC0 + a) # (0x80 + b) # rest) =
       map_option ((#) (a * 0x40 + b)) (utf8_decode rest)"
  by (simp add: continuation_def)

lemma utf8_decode_3:
  "a < 16 \<Longrightarrow> b < 64 \<Longrightarrow> d < 64 \<Longrightarrow> 0x800 \<le> a * 0x1000 + b * 0x40 + d \<Longrightarrow>
     scalar (a * 0x1000 + b * 0x40 + d) \<Longrightarrow>
     utf8_decode ((0xE0 + a) # (0x80 + b) # (0x80 + d) # rest) =
       map_option ((#) (a * 0x1000 + b * 0x40 + d)) (utf8_decode rest)"
  by (simp add: continuation_def)

lemma utf8_decode_4:
  "a < 5 \<Longrightarrow> b < 64 \<Longrightarrow> d < 64 \<Longrightarrow> f < 64 \<Longrightarrow>
     0x10000 \<le> a * 0x40000 + b * 0x1000 + d * 0x40 + f \<Longrightarrow>
     scalar (a * 0x40000 + b * 0x1000 + d * 0x40 + f) \<Longrightarrow>
     utf8_decode ((0xF0 + a) # (0x80 + b) # (0x80 + d) # (0x80 + f) # rest) =
       map_option ((#) (a * 0x40000 + b * 0x1000 + d * 0x40 + f)) (utf8_decode rest)"
  by (simp add: continuation_def)

lemma utf8_decode_bytes:
  assumes "scalar c"
  shows "utf8_decode (utf8_bytes c @ rest) = map_option ((#) c) (utf8_decode rest)"
proof -
  define q1 q2 where "q1 = c div 0x40" and "q2 = q1 div 0x40"
  define a b d f where "a = q2 div 0x40" and "b = q2 mod 0x40" and "d = q1 mod 0x40"
    and "f = c mod 0x40"
  have e1: "q1 * 0x40 + f = c" unfolding q1_def f_def by (rule div_mult_mod_eq)
  have e2: "q2 * 0x40 + d = q1" unfolding q2_def d_def by (rule div_mult_mod_eq)
  have e3: "a * 0x40 + b = q2" unfolding a_def b_def by (rule div_mult_mod_eq)
  have lt: "b < 64" "d < 64" "f < 64" unfolding b_def d_def f_def by simp_all
  have "c div (0x40 * 0x40) = c div 0x40 div 0x40" by (rule div_mult2_eq)
  then have d2: "c div 0x1000 = q2" by (simp add: q1_def q2_def)
  have "c div (0x1000 * 0x40) = c div 0x1000 div 0x40" by (rule div_mult2_eq)
  then have d3: "c div 0x40000 = a" by (simp add: d2 a_def)
  consider "c < 0x80" | "0x80 \<le> c" "c < 0x800" | "0x800 \<le> c" "c < 0x10000"
    | "0x10000 \<le> c" "c < 0x110000"
    using assms unfolding scalar_def by linarith
  then show ?thesis
  proof cases
    case 1
    then show ?thesis by (simp add: utf8_bytes_def)
  next
    case 2
    have r: "2 \<le> q1" "q1 < 32" using 2 e1 lt by linarith+
    have "utf8_decode ((0xC0 + q1) # (0x80 + f) # rest) =
            map_option ((#) (q1 * 0x40 + f)) (utf8_decode rest)"
      using r lt(3) by (rule utf8_decode_2)
    moreover have "utf8_bytes c = [0xC0 + q1, 0x80 + f]"
      using 2 by (simp add: utf8_bytes_def q1_def f_def)
    ultimately show ?thesis by (simp only: e1 append_Cons append_Nil)
  next
    case 3
    have c: "q2 * 0x1000 + d * 0x40 + f = c" using e1 e2 by linarith
    have r: "q2 < 16" using 3 c by linarith
    have v: "0x800 \<le> q2 * 0x1000 + d * 0x40 + f" "scalar (q2 * 0x1000 + d * 0x40 + f)"
      using 3 assms by (simp_all only: c)
    have "utf8_decode ((0xE0 + q2) # (0x80 + d) # (0x80 + f) # rest) =
            map_option ((#) (q2 * 0x1000 + d * 0x40 + f)) (utf8_decode rest)"
      using r lt(2,3) v by (rule utf8_decode_3)
    moreover have "utf8_bytes c = [0xE0 + q2, 0x80 + d, 0x80 + f]"
      using 3 by (simp add: utf8_bytes_def d2) (simp add: q1_def d_def f_def)
    ultimately show ?thesis by (simp only: c append_Cons append_Nil)
  next
    case 4
    have c: "a * 0x40000 + b * 0x1000 + d * 0x40 + f = c" using e1 e2 e3 by linarith
    have r: "a < 5" using 4 c by linarith
    have v: "0x10000 \<le> a * 0x40000 + b * 0x1000 + d * 0x40 + f"
      "scalar (a * 0x40000 + b * 0x1000 + d * 0x40 + f)"
      using 4 assms by (simp_all only: c)
    have "utf8_decode ((0xF0 + a) # (0x80 + b) # (0x80 + d) # (0x80 + f) # rest) =
            map_option ((#) (a * 0x40000 + b * 0x1000 + d * 0x40 + f)) (utf8_decode rest)"
      using r lt v by (rule utf8_decode_4)
    moreover have "utf8_bytes c = [0xF0 + a, 0x80 + b, 0x80 + d, 0x80 + f]"
      using 4 by (simp add: utf8_bytes_def d2 d3) (simp add: q1_def b_def d_def f_def)
    ultimately show ?thesis by (simp only: c append_Cons append_Nil)
  qed
qed

lemma utf8_decode_encoded:
  "list_all scalar s \<Longrightarrow> utf8_decode (concat (map utf8_bytes s)) = Some s"
  by (induction s) (simp_all add: utf8_decode_bytes)

lemma utf8_bytes_ascii: "\<forall>c\<in>set s. c < 0x80 \<Longrightarrow> concat (map utf8_bytes s) = s"
  by (induction s) (simp_all add: utf8_bytes_def)

lemma scalar_ascii: "\<forall>c\<in>set s. c < 0x80 \<Longrightarrow> list_all scalar s"
  by (induction s) (simp_all add: scalar_def)

lemma utf8_encode_ascii: "\<forall>c\<in>set s. c < 0x80 \<Longrightarrow> utf8_encode s = Some s"
  by (simp add: utf8_encode_def scalar_ascii utf8_bytes_ascii)

lemma utf8_decode_ascii: "\<forall>b\<in>set bs. b < 0x80 \<Longrightarrow> utf8_decode bs = Some bs"
  by (induction bs) simp_all

lemma dbcs_decode_ascii: "\<forall>b\<in>set bs. b < 0x80 \<Longrightarrow> dbcs_decode table bs = Some bs"
  by (induction table bs rule: dbcs_decode.induct) simp_all

lemma decode_written:
  "list_all scalar f \<Longrightarrow> decode m utf_8_sig (BOM_UTF8 @ concat (map utf8_bytes f)) = Some f"
  by (simp add: decode_def BOM_UTF8_def utf8_decode_encoded)

subsection \<open>The strings written\<close>

lemma write_strings_all:
  "\<forall>s\<in>set ss. list_all scalar s \<Longrightarrow>
     write_strings first out ss =
       (None, out @ (if first \<and> ss \<noteq> [] then BOM_UTF8 else []) @ concat (map utf8_bytes (concat ss)))"
  by (induction ss arbitrary: first out) (simp_all add: utf8_encode_def)

lemma scalar_join_append_data: "list_all scalar f \<Longrightarrow> list_all scalar (join_append_data f)"
  by (induction f) (simp_all add: join_append_data_def scalar_def)

lemma scalar_join_append: "list_all scalar f \<Longrightarrow> list_all scalar (join_append f quoted)"
  by (simp add: join_append_def scalar_join_append_data) (simp add: scalar_def)

lemma scalar_join_fields: "\<forall>f\<in>set seq. list_all scalar f \<Longrightarrow> list_all scalar (join_fields seq)"
  by (induction seq rule: join_fields.induct) (simp_all add: scalar_join_append, simp add: scalar_def)

lemma scalar_writerow: "\<forall>f\<in>set seq. list_all scalar f \<Longrightarrow> list_all scalar (writerow seq)"
  by (simp add: writerow_def Let_def scalar_join_fields scalar_join_append) (simp add: scalar_def)

lemma open_text_on_host: "open_text (on_host m e) = open_read m"
  by (simp add: on_host_def)

subsection \<open>A file of ASCII text behind a byte order mark\<close>

lemma decode_bom_ascii:
  assumes "\<forall>b\<in>set f. b < 0x80"
  shows "decode m utf_8_sig (BOM_UTF8 @ f) = Some f"
    and "decode m utf_8 (BOM_UTF8 @ f) = Some (0xFEFF # f)"
    and "decode m latin_1 (BOM_UTF8 @ f) = Some (0xEF # 0xBB # 0xBF # f)"
  using utf8_decode_ascii [OF assms]
  by (simp_all add: decode_def BOM_UTF8_def continuation_def scalar_def)

lemma decode_bom_pairs:
  assumes "table (0xEF, 0xBB) = Some u" and "table (0xBF, b) = Some v" and "\<forall>x\<in>set f. x < 0x80"
  shows "dbcs_decode table (BOM_UTF8 @ b # f) = Some (u # v # f)"
  using assms(1,2) dbcs_decode_ascii [OF assms(3), of table] by (simp add: BOM_UTF8_def)

lemma decode_bom_no_pair:
  assumes "table (0xEF, 0xBB) = Some u" and "table (0xBF, b) = None"
  shows "dbcs_decode table (BOM_UTF8 @ b # f) = None"
  using assms by (simp add: BOM_UTF8_def)

lemma open_read_content:
  "content m path = Some bs \<Longrightarrow> read_error m path = None \<Longrightarrow> decode m enc bs = Some f \<Longrightarrow>
     open_read m path enc = Text f"
  "content m path = Some bs \<Longrightarrow> read_error m path = None \<Longrightarrow> decode m enc bs = None \<Longrightarrow>
     open_read m path enc = DecodeFails"
  by (simp_all add: open_read_def)

section \<open>Example files\<close>

text \<open>
  An environment in which every path is a \<^verbatim>\<open>.csv\<close> file with the given outcomes of reading,
  and the outcomes for a file that holds an ASCII text encoded as UTF-8 with a byte order
  mark: \<^verbatim>\<open>utf-8-sig\<close> gives the text, \<^verbatim>\<open>utf-8\<close> keeps the mark as a character, \<^verbatim>\<open>gb2312\<close>
  cannot decode the mark, \<^verbatim>\<open>latin-1\<close> gives its three bytes as characters, and \<open>gbk_view\<close>
  is what \<^verbatim>\<open>gbk\<close> makes of the file.
\<close>

definition file_env :: "(encoding \<Rightarrow> read_outcome) \<Rightarrow> env" where
  "file_env outcome =
     \<lparr>ext_of = (\<lambda>path. py ''.csv''), open_text = (\<lambda>path. outcome), openpyxl = True,
      load_workbook = (\<lambda>path. Inl (OtherError []))\<rparr>"

definition bom_file :: "pystr \<Rightarrow> read_outcome \<Rightarrow> encoding \<Rightarrow> read_outcome" where
  "bom_file f gbk_view enc =
     (case enc of
        utf_8_sig \<Rightarrow> Text f
      | utf_8 \<Rightarrow> Text (0xFEFF # f)
      | gbk \<Rightarrow> gbk_view
      | gb2312 \<Rightarrow> DecodeFails
      | latin_1 \<Rightarrow> Text (0xEF # 0xBB # 0xBF # f))"

text \<open>
  A machine without files, on which every path can be written and read. Of the code tables of
  \<^verbatim>\<open>gbk\<close> and \<^verbatim>\<open>gb2312\<close> it has the pairs of bytes that the files below hold.
\<close>

definition blank_host :: host where
  "blank_host =
     \<lparr>content = (\<lambda>path. None), read_error = (\<lambda>path. None), write_error = (\<lambda>path. None),
      gbk_table = [(0xEF, 0xBB) \<mapsto> 0x9518, (0xBF, 0x61) \<mapsto> 0x7E1C],
      gb2312_table = [(0xEF, 0xBB) \<mapsto> 0x9518]\<rparr>"

text \<open>A dataset with a quoted field that holds a quote and a line break, a row with a
  column that is not a header and without one that is, an empty value, and a value with
  characters of two, three and four bytes; the text that \<^verbatim>\<open>csv.DictWriter\<close> writes for it,
  and the bytes of the file.\<close>

definition notes_headers :: "pystr list" where
  "notes_headers = [py ''id'', py ''note'']"

definition notes_rows :: "row list" where
  "notes_rows =
     [[(py ''id'', py ''1''), (py ''note'', [120, 34, 121, 13, 10, 122])],
      [(py ''id'', py ''2''), (py ''extra'', py ''e'')],
      [(py ''id'', []), (py ''note'', py ''a,b'')],
      [(py ''id'', [0xE9, 0x4E2D, 0x1F600]), (py ''note'', py ''ok'')]]"

definition notes_text :: pystr where
  "notes_text =
     [105, 100, 44, 110, 111, 116, 101, 13, 10,
      49, 44, 34, 120, 34, 34, 121, 13, 10, 122, 34, 13, 10,
      50, 44, 13, 10,
      44, 34, 97, 44, 98, 34, 13, 10,
      0xE9, 0x4E2D, 0x1F600, 44, 111, 107, 13, 10]"

definition notes_bytes :: "nat list" where
  "notes_bytes =
     [239, 187, 191, 105, 100, 44, 110, 111, 116, 101, 13, 10,
      49, 44, 34, 120, 34, 34, 121, 13, 10, 122, 34, 13, 10,
      50, 44, 13, 10,
      44, 34, 97, 44, 98, 34, 13, 10,
      195, 169, 228, 184, 173, 240, 159, 152, 128, 44, 111, 107, 13, 10]"

lemma notes_written:
  "concat (writeheader notes_headers # writerows notes_headers notes_rows) = notes_text"
  by (simp add: notes_headers_def notes_rows_def notes_text_def py_def csv_eval)

lemma notes_encoded: "BOM_UTF8 @ concat (map utf8_bytes notes_text) = notes_bytes"
  by (simp add: notes_text_def notes_bytes_def BOM_UTF8_def utf8_bytes_def)

text \<open>A header of 131073 letters, one more than the field size limit.\<close>

definition long_name :: pystr where
  "long_name = replicate 131073 97"

lemma long_name_plain: "\<forall>c\<in>set long_name. c \<noteq> 10 \<and> c \<noteq> 13 \<and> c \<noteq> 34 \<and> c \<noteq> 44"
  by (simp add: long_name_def)

lemma long_name_length: "length long_name = 131073"
  by (simp add: long_name_def)

lemma long_name_ascii: "\<forall>c\<in>set long_name. c < 0x80"
  by (simp add: long_name_def)

lemma long_name_Cons: "long_name = 97 # tl long_name"
proof -
  have ne: "long_name \<noteq> []" using long_name_length by auto
  then have "hd long_name \<in> set long_name" by simp
  then have "hd long_name = 97" by (simp add: long_name_def)
  with ne show ?thesis by (metis list.collapse)
qed

lemma long_name_written: "writeheader [long_name] = long_name @ [13, 10]"
proof -
  have "\<not> needs_quotes long_name"
    using long_name_plain by (auto simp: needs_quotes_iff)
  moreover have "long_name \<noteq> []" using long_name_length by auto
  ultimately have "writerow [long_name] = long_name @ [13, 10]"
    by (simp add: writerow_def join_append_def)
  moreover have "dict_to_list [long_name] (dict_of (zip [long_name] [long_name])) = [long_name]"
    by (rule writeheader_list) simp
  ultimately show ?thesis by (simp add: writeheader_def)
qed

lemma long_text_fails:
  assumes "\<forall>c\<in>set pre. c \<noteq> 10 \<and> c \<noteq> 13 \<and> c \<noteq> 34 \<and> c \<noteq> 44"
  shows "csv_reader (readlines (pre @ long_name @ [13, 10]) []) parse_reset [] = Inl FieldLimit"
proof -
  have "csv_reader (readlines ((pre @ long_name) @ [13, 10]) []) parse_reset [] = Inl FieldLimit"
    using assms long_name_plain by (intro long_line_fails) (auto simp: long_name_length field_limit_def)
  then show ?thesis by simp
qed

lemma long_tail_fails:
  assumes "\<forall>c\<in>set pre. c \<noteq> 10 \<and> c \<noteq> 13 \<and> c \<noteq> 34 \<and> c \<noteq> 44" and "pre \<noteq> []"
  shows "csv_reader (readlines (pre @ tl long_name @ [13, 10]) []) parse_reset [] = Inl FieldLimit"
proof -
  have "long_name \<noteq> []" using long_name_length by auto
  then have "set (tl long_name) \<subseteq> set long_name" by (auto dest: list.set_sel(2))
  with long_name_plain have plain: "\<forall>c\<in>set (tl long_name). c \<noteq> 10 \<and> c \<noteq> 13 \<and> c \<noteq> 34 \<and> c \<noteq> 44"
    by blast
  have "0 < length pre" using assms(2) by simp
  then have len: "field_limit < length (pre @ tl long_name)"
    by (simp add: long_name_length field_limit_def)
  have "csv_reader (readlines ((pre @ tl long_name) @ [13, 10]) []) parse_reset [] = Inl FieldLimit"
    using assms(1) plain len by (intro long_line_fails) auto
  then show ?thesis by simp
qed

lemma long_written:
  "write_csv blank_host path [long_name] [] =
     (None, blank_host\<lparr>content := (content blank_host)(path \<mapsto> BOM_UTF8 @ long_name @ [13, 10])\<rparr>)"
proof -
  have a: "\<forall>c\<in>set (long_name @ [13, 10]). c < 0x80"
    using long_name_ascii by simp
  have "write_strings True [] [long_name @ [13, 10]] = (None, BOM_UTF8 @ long_name @ [13, 10])"
    by (simp add: utf8_encode_ascii [OF a])
  then show ?thesis
    by (simp add: write_csv_def blank_host_def long_name_written writerows_def)
qed

text \<open>A path that cannot be opened, and a file with a row of three cells and a row of one
  cell under two headers.\<close>

definition missing_file :: "encoding \<Rightarrow> read_outcome" where
  "missing_file enc = OpenFails (py ''No such file or directory'')"

definition missing_env :: env where
  "missing_env =
     \<lparr>ext_of = (\<lambda>path. if path = py ''full.csv'' then py ''.csv'' else py ''.xlsx''),
      open_text = (\<lambda>path. missing_file), openpyxl = True,
      load_workbook = (\<lambda>path. Inl (OSError (py ''No such file or directory'')))\<rparr>"

definition long_row_text :: pystr where
  "long_row_text = py ''a,b'' @ [13, 10] @ py ''1,2,3'' @ [13, 10] @ py ''4'' @ [13, 10]"

section \<open>Claims about reading and writing files\<close>

text \<open>
  Claim C7, amended. Take a dataset with distinct headers, with at least one header unless
  it has no rows, in which every header and every value under a header is a string without
  surrogate code points of at most 131072 characters (the field size limit of the csv
  module), and a path that can be opened for writing and, once the file is there, for
  reading. Then \<^verbatim>\<open>write_csv\<close> returns, and \<^verbatim>\<open>_read_csv\<close> reads from the file it wrote the same
  headers in the same order and as many rows, in the same order, each with exactly the
  headers as keys and, for every header, the string the row had for it (the empty string
  when the row had no such key).
\<close>

theorem csv_round_trip:
  assumes "distinct headers" and "headers \<noteq> [] \<or> rows = []"
    and "\<forall>h\<in>set headers. list_all scalar h \<and> length h \<le> field_limit"
    and "\<forall>row\<in>set rows. \<forall>h\<in>set headers.
           list_all scalar (dict_get row h []) \<and> length (dict_get row h []) \<le> field_limit"
    and "write_error m path = None" and "read_error m path = None"
  shows "\<exists>m'. write_csv m path headers rows = (None, m') \<and>
           read_csv (on_host m' e) path =
             Inr (headers, map (\<lambda>row. map (\<lambda>h. (Some h, CStr (dict_get row h []))) headers) rows) \<and>
           (\<exists>rows'. read_csv (on_host m' e) path = Inr (headers, rows') \<and>
              length rows' = length rows \<and>
              (\<forall>i<length rows. \<forall>h\<in>set headers.
                 map_of (rows' ! i) (Some h) = Some (CStr (dict_get (rows ! i) h []))))"
proof -
  let ?recs = "map (dict_to_list headers) rows"
  let ?rows_read = "map (\<lambda>row. map (\<lambda>h. (Some h, CStr (dict_get row h []))) headers) rows"
  let ?lines = "writeheader headers # writerows headers rows"
  let ?bytes = "BOM_UTF8 @ concat (map utf8_bytes (concat ?lines))"
  let ?m' = "m\<lparr>content := (content m)(path \<mapsto> ?bytes)\<rparr>"
  have lines: "?lines = map writerow (headers # ?recs)"
    by (simp add: writeheader_def writerows_def writeheader_list [OF assms(1)])
  have "\<forall>r\<in>set (headers # ?recs). \<forall>f\<in>set r. list_all scalar f"
    using assms(3,4) by (auto simp: dict_to_list_def)
  then have "\<forall>s\<in>set (map writerow (headers # ?recs)). list_all scalar s"
    by (auto intro: scalar_writerow)
  then have sc: "\<forall>s\<in>set ?lines. list_all scalar s"
    by (simp only: lines)
  have "write_strings True [] ?lines =
          (None, [] @ (if True \<and> ?lines \<noteq> [] then BOM_UTF8 else []) @
                 concat (map utf8_bytes (concat ?lines)))"
    by (rule write_strings_all [OF sc])
  then have w: "write_strings True [] ?lines = (None, ?bytes)"
    by (simp only: append_Nil list.distinct simp_thms if_True)
  have wr: "write_csv m path headers rows = (None, ?m')"
    by (simp only: write_csv_def assms(5) w option.case prod.case)
  have "list_all scalar (concat ?lines)"
    using sc by (simp only: list_all_iff set_concat) blast
  then have dec: "decode ?m' utf_8_sig ?bytes = Some (concat ?lines)"
    by (rule decode_written)
  have ct: "content ?m' path = Some ?bytes" by simp
  have re: "read_error ?m' path = None" using assms(6) by simp
  have o: "open_text (on_host ?m' e) path utf_8_sig = Text (concat ?lines)"
    unfolding open_text_on_host by (rule open_read_content(1) [OF ct re dec])
  have lens: "\<forall>r\<in>set (headers # ?recs). \<forall>f\<in>set r. length f \<le> field_limit"
    using assms(3,4) by (auto simp: dict_to_list_def)
  have parsed: "csv_reader (readlines (concat ?lines) []) parse_reset [] = Inr (headers # ?recs)"
    using records_read [OF lens, of "[]"] by (simp only: lines append_Nil)
  have keep: "filter (\<lambda>row. row \<noteq> []) ?recs = ?recs"
    using assms(2) by (auto simp: dict_to_list_def)
  have one: "map (\<lambda>(k, v). (k, or_empty v)) (row_dict headers (dict_to_list headers row)) =
               map (\<lambda>h. (Some h, CStr (dict_get row h []))) headers" for row
  proof -
    have "row_dict headers (dict_to_list headers row) =
            zip (map Some headers) (map CStr (dict_to_list headers row))"
      using assms(1) by (intro row_dict_full) (simp_all add: dict_to_list_def)
    moreover have "zip (map Some headers) (map CStr (dict_to_list headers row)) =
            map (\<lambda>h. (Some h, CStr (dict_get row h []))) headers"
      by (simp add: dict_to_list_def zip_map_map zip_same_conv_map)
    ultimately show ?thesis by (simp add: or_empty_def)
  qed
  have eq: "read_csv (on_host ?m' e) path = Inr (headers, ?rows_read)"
    using read_csv_first [OF o parsed] by (simp add: keep one comp_def)
  have "map_of (?rows_read ! i) (Some h) = Some (CStr (dict_get (rows ! i) h []))"
    if "i < length rows" "h \<in> set headers" for i h
  proof -
    have "map_of (map (\<lambda>h. (Some h, CStr (dict_get row h []))) headers) (Some h) =
            Some (CStr (dict_get row h []))" for row
      using that(2) by (induction headers) auto
    with that(1) show ?thesis by simp
  qed
  with eq have "\<exists>rows'. read_csv (on_host ?m' e) path = Inr (headers, rows') \<and>
      length rows' = length rows \<and>
      (\<forall>i<length rows. \<forall>h\<in>set headers.
         map_of (rows' ! i) (Some h) = Some (CStr (dict_get (rows ! i) h [])))"
    by auto
  with wr eq show ?thesis by blast
qed

theorem csv_round_trip_witness:
  "distinct notes_headers \<and> notes_headers \<noteq> [] \<and>
   write_error blank_host (py ''out.csv'') = None \<and> read_error blank_host (py ''out.csv'') = None \<and>
   write_csv blank_host (py ''out.csv'') notes_headers notes_rows =
     (None, blank_host\<lparr>content := (content blank_host)(py ''out.csv'' \<mapsto> notes_bytes)\<rparr>) \<and>
   read_csv (on_host (blank_host\<lparr>content := (content blank_host)(py ''out.csv'' \<mapsto> notes_bytes)\<rparr>)
               (file_env missing_file)) (py ''out.csv'') =
     Inr ([py ''id'', py ''note''],
          [[(Some (py ''id''), CStr (py ''1'')), (Some (py ''note''), CStr [120, 34, 121, 13, 10, 122])],
           [(Some (py ''id''), CStr (py ''2'')), (Some (py ''note''), CStr [])],
           [(Some (py ''id''), CStr []), (Some (py ''note''), CStr (py ''a,b''))],
           [(Some (py ''id''), CStr [0xE9, 0x4E2D, 0x1F600]), (Some (py ''note''), CStr (py ''ok''))]])"
proof -
  let ?p = "py ''out.csv''"
  let ?lines = "writeheader notes_headers # writerows notes_headers notes_rows"
  let ?m1 = "blank_host\<lparr>content := (content blank_host)(?p \<mapsto> notes_bytes)\<rparr>"
  have d: "distinct notes_headers" and ne: "notes_headers \<noteq> []"
    by (simp_all add: notes_headers_def py_def)
  have h: "\<forall>h\<in>set notes_headers. list_all scalar h \<and> length h \<le> field_limit"
    by (simp add: notes_headers_def py_def field_limit_def scalar_def)
  have v: "\<forall>row\<in>set notes_rows. \<forall>h\<in>set notes_headers.
             list_all scalar (dict_get row h []) \<and> length (dict_get row h []) \<le> field_limit"
    by (simp add: notes_headers_def notes_rows_def py_def field_limit_def dict_get_def scalar_def)
  have we: "write_error blank_host ?p = None" and re: "read_error blank_host ?p = None"
    by (simp_all add: blank_host_def)
  have sc: "\<forall>s\<in>set ?lines. list_all scalar s"
    by (simp add: notes_headers_def notes_rows_def py_def csv_eval scalar_def)
  have "write_strings True [] ?lines =
          (None, [] @ (if True \<and> ?lines \<noteq> [] then BOM_UTF8 else []) @
                 concat (map utf8_bytes (concat ?lines)))"
    by (rule write_strings_all [OF sc])
  then have "write_strings True [] ?lines = (None, notes_bytes)"
    by (simp only: append_Nil list.distinct simp_thms if_True notes_written notes_encoded)
  then have wr: "write_csv blank_host ?p notes_headers notes_rows = (None, ?m1)"
    by (simp only: write_csv_def we option.case prod.case)
  from csv_round_trip [OF d disjI1 [OF ne] h v we re, of "file_env missing_file"]
  obtain m' where m': "write_csv blank_host ?p notes_headers notes_rows = (None, m')"
    "read_csv (on_host m' (file_env missing_file)) ?p =
       Inr (notes_headers,
            map (\<lambda>row. map (\<lambda>h. (Some h, CStr (dict_get row h []))) notes_headers) notes_rows)"
    by blast
  from m'(1) wr have "m' = ?m1" by simp
  with m'(2) have "read_csv (on_host ?m1 (file_env missing_file)) ?p =
       Inr (notes_headers,
            map (\<lambda>row. map (\<lambda>h. (Some h, CStr (dict_get row h []))) notes_headers) notes_rows)"
    by (simp only:)
  then have r: "read_csv (on_host ?m1 (file_env missing_file)) ?p =
     Inr ([py ''id'', py ''note''],
          [[(Some (py ''id''), CStr (py ''1'')), (Some (py ''note''), CStr [120, 34, 121, 13, 10, 122])],
           [(Some (py ''id''), CStr (py ''2'')), (Some (py ''note''), CStr [])],
           [(Some (py ''id''), CStr []), (Some (py ''note''), CStr (py ''a,b''))],
           [(Some (py ''id''), CStr [0xE9, 0x4E2D, 0x1F600]), (Some (py ''note''), CStr (py ''ok''))]])"
    by (simp add: notes_headers_def notes_rows_def dict_get_def) (simp add: py_def)
  from d ne we re wr r show ?thesis by (intro conjI)
qed

text \<open>
  Claim C7 as stated fails for three datasets. For a header that is a surrogate code point,
  \<^verbatim>\<open>write_csv\<close> raises \<^verbatim>\<open>UnicodeEncodeError\<close> and leaves an empty file, from which no header is
  read. A header of 131073 letters is written, but no encoding reads the file back: the
  reader refuses the field, and \<^verbatim>\<open>_read_csv\<close> ends with the error for an unknown encoding.
  A dataset without headers and with one row is written as two empty lines and read back
  without rows.
\<close>

theorem csv_round_trip_counterexample:
  "write_csv blank_host (py ''out.csv'') [[0xD800]] [] =
     (Some UnicodeEncodeError, blank_host\<lparr>content := (content blank_host)(py ''out.csv'' \<mapsto> [])\<rparr>) \<and>
   read_csv (on_host (blank_host\<lparr>content := (content blank_host)(py ''out.csv'' \<mapsto> [])\<rparr>)
               (file_env missing_file)) (py ''out.csv'') = Inr ([], []) \<and>
   write_csv blank_host (py ''out.csv'') [long_name] [] =
     (None, blank_host\<lparr>content := (content blank_host)
                                     (py ''out.csv'' \<mapsto> BOM_UTF8 @ long_name @ [13, 10])\<rparr>) \<and>
   read_csv (on_host (blank_host\<lparr>content := (content blank_host)
                                     (py ''out.csv'' \<mapsto> BOM_UTF8 @ long_name @ [13, 10])\<rparr>)
               (file_env missing_file)) (py ''out.csv'') = Inl ValueError_unknown_encoding \<and>
   write_csv blank_host (py ''out.csv'') [] [[]] =
     (None, blank_host\<lparr>content := (content blank_host)
                                     (py ''out.csv'' \<mapsto> BOM_UTF8 @ [13, 10, 13, 10])\<rparr>) \<and>
   read_csv (on_host (blank_host\<lparr>content := (content blank_host)
                                     (py ''out.csv'' \<mapsto> BOM_UTF8 @ [13, 10, 13, 10])\<rparr>)
               (file_env missing_file)) (py ''out.csv'') = Inr ([], [])"
proof -
  let ?p = "py ''out.csv''"
  let ?m = "blank_host\<lparr>content := (content blank_host)(?p \<mapsto> BOM_UTF8 @ long_name @ [13, 10])\<rparr>"
  let ?e = "on_host ?m (file_env missing_file)"
  have s1: "write_csv blank_host ?p [[0xD800]] [] =
      (Some UnicodeEncodeError, blank_host\<lparr>content := (content blank_host)(?p \<mapsto> [])\<rparr>)"
    by (simp add: write_csv_def blank_host_def writerows_def utf8_encode_def scalar_def csv_eval)
  have s2: "read_csv (on_host (blank_host\<lparr>content := (content blank_host)(?p \<mapsto> [])\<rparr>)
                        (file_env missing_file)) ?p = Inr ([], [])"
    by (simp add: on_host_def open_read_def decode_def blank_host_def BOM_UTF8_def csv_eval)
  have ascii: "\<forall>b\<in>set (long_name @ [13, 10]). b < 0x80"
    using long_name_ascii by simp
  have "long_name \<noteq> []" using long_name_length by auto
  then have "set (tl long_name) \<subseteq> set long_name" by (auto dest: list.set_sel(2))
  with long_name_ascii have ascii': "\<forall>b\<in>set (tl long_name @ [13, 10]). b < 0x80"
    by auto
  have c: "content ?m ?p = Some (BOM_UTF8 @ long_name @ [13, 10])" by simp
  have re: "read_error ?m ?p = None" by (simp add: blank_host_def)
  have "long_name @ [13, 10] = 97 # tl long_name @ [13, 10]"
    using long_name_Cons by (metis append_Cons)
  with c have c': "content ?m ?p = Some (BOM_UTF8 @ 97 # tl long_name @ [13, 10])"
    by (simp only:)
  have g1: "gbk_table ?m (0xEF, 0xBB) = Some 0x9518" "gbk_table ?m (0xBF, 97) = Some 0x7E1C"
    and g2: "gb2312_table ?m (0xEF, 0xBB) = Some 0x9518" "gb2312_table ?m (0xBF, 97) = None"
    by (simp_all add: blank_host_def)
  have o1: "open_text ?e ?p utf_8_sig = Text (long_name @ [13, 10])"
    and o2: "open_text ?e ?p utf_8 = Text (0xFEFF # long_name @ [13, 10])"
    and o5: "open_text ?e ?p latin_1 = Text (0xEF # 0xBB # 0xBF # long_name @ [13, 10])"
    unfolding open_text_on_host
    by (rule open_read_content(1) [OF c re decode_bom_ascii(1) [OF ascii]],
        rule open_read_content(1) [OF c re decode_bom_ascii(2) [OF ascii]],
        rule open_read_content(1) [OF c re decode_bom_ascii(3) [OF ascii]])
  have "decode ?m gbk (BOM_UTF8 @ 97 # tl long_name @ [13, 10]) =
          Some (0x9518 # 0x7E1C # tl long_name @ [13, 10])"
    unfolding decode_def encoding.case by (rule decode_bom_pairs [OF g1 ascii'])
  then have o3: "open_text ?e ?p gbk = Text (0x9518 # 0x7E1C # tl long_name @ [13, 10])"
    unfolding open_text_on_host by (rule open_read_content(1) [OF c' re])
  have "decode ?m gb2312 (BOM_UTF8 @ 97 # tl long_name @ [13, 10]) = None"
    unfolding decode_def encoding.case by (rule decode_bom_no_pair [OF g2])
  then have o4: "open_text ?e ?p gb2312 = DecodeFails"
    unfolding open_text_on_host by (rule open_read_content(2) [OF c' re])
  have a: "csv_reader (readlines (long_name @ [13, 10]) []) parse_reset [] = Inl FieldLimit"
    using long_text_fails [of "[]"] by simp
  have b: "csv_reader (readlines (0xFEFF # long_name @ [13, 10]) []) parse_reset [] = Inl FieldLimit"
    using long_text_fails [of "[0xFEFF]"] by simp
  have g: "csv_reader (readlines (0x9518 # 0x7E1C # tl long_name @ [13, 10]) []) parse_reset [] = Inl FieldLimit"
    using long_tail_fails [of "[0x9518, 0x7E1C]"] by simp
  have l: "csv_reader (readlines (0xEF # 0xBB # 0xBF # long_name @ [13, 10]) []) parse_reset [] = Inl FieldLimit"
    using long_text_fails [of "[0xEF, 0xBB, 0xBF]"] by simp
  have "read_csv ?e ?p = read_csv_with ?e ?p [utf_8_sig, utf_8, gbk, gb2312, latin_1]"
    by (simp only: read_csv_def)
  also have "\<dots> = read_csv_with ?e ?p [utf_8, gbk, gb2312, latin_1]"
    using o1 a by (rule read_csv_with_text_fails)
  also have "\<dots> = read_csv_with ?e ?p [gbk, gb2312, latin_1]"
    using o2 b by (rule read_csv_with_text_fails)
  also have "\<dots> = read_csv_with ?e ?p [gb2312, latin_1]"
    using o3 g by (rule read_csv_with_text_fails)
  also have "\<dots> = read_csv_with ?e ?p [latin_1]"
    using o4 by (rule read_csv_with_decode_fails)
  also have "\<dots> = read_csv_with ?e ?p []"
    using o5 l by (rule read_csv_with_text_fails)
  finally have l2: "read_csv ?e ?p = Inl ValueError_unknown_encoding"
    by simp
  have e1: "write_csv blank_host ?p [] [[]] =
      (None, blank_host\<lparr>content := (content blank_host)(?p \<mapsto> BOM_UTF8 @ [13, 10, 13, 10])\<rparr>)"
    by (simp add: write_csv_def blank_host_def writerows_def utf8_encode_def utf8_bytes_def
          scalar_def csv_eval)
  have e2: "read_csv (on_host (blank_host\<lparr>content := (content blank_host)
                                     (?p \<mapsto> BOM_UTF8 @ [13, 10, 13, 10])\<rparr>)
               (file_env missing_file)) ?p = Inr ([], [])"
    by (simp add: on_host_def open_read_def decode_def blank_host_def BOM_UTF8_def csv_eval)
  from s1 s2 long_written [of ?p] l2 e1 e2 show ?thesis by (intro conjI)
qed

text \<open>
  Claim C8 does not hold of \<^verbatim>\<open>_read_csv\<close>. For a \<^verbatim>\<open>.csv\<close> path that cannot be opened, the
  \<^verbatim>\<open>OSError\<close> of \<^verbatim>\<open>open\<close> is caught by \<^verbatim>\<open>except (UnicodeDecodeError, Exception)\<close> for each of
  the five encodings, and \<^verbatim>\<open>read_file\<close> fails with the error for an unknown encoding. For a
  spreadsheet path the \<^verbatim>\<open>OSError\<close> of opening the workbook is what \<^verbatim>\<open>read_file\<close> fails with.
\<close>

theorem missing_csv_reports_encoding:
  "read_file missing_env (py ''full.csv'') = Inl ValueError_unknown_encoding \<and>
   read_file missing_env (py ''full.xlsx'') = Inl (OSError (py ''No such file or directory''))"
  by (simp add: read_file_def read_csv_def read_xlsx_def missing_env_def missing_file_def Let_def)
     (simp add: py_def)

text \<open>
  Claim C9 does not hold for a row with more cells than headers: the cells beyond the
  headers are kept as a list under the key \<^verbatim>\<open>None\<close>, which \<^verbatim>\<open>v or ""\<close> leaves as it is, so
  the row has a value that is not a string. A row with fewer cells than headers gets the
  empty string for the headers without a cell.
\<close>

theorem long_row_keeps_list:
  "read_file (file_env (bom_file long_row_text (Text (0x9518 # 0x7E1C # tl long_row_text))))
     (py ''masked.csv'') =
     Inr ([py ''a'', py ''b''],
          [[(Some (py ''a''), CStr (py ''1'')), (Some (py ''b''), CStr (py ''2'')),
            (None, CList [py ''3''])],
           [(Some (py ''a''), CStr (py ''4'')), (Some (py ''b''), CStr [])]])"
  by (simp add: read_file_def file_env_def bom_file_def long_row_text_def py_def csv_eval)

end
